theory Spec2Isabelle
  imports Complex_Main "HOL-Library.Word" "HOL-Library.Monad_Syntax"
begin

unbundle bit_operations_syntax

section \<open>Conventions of the embedding\<close>

text \<open>
  The library is a set of C++ class templates over a digit generator \<open>digit_gen\<close>
  (\<open>rand_digit<b>\<close> or \<open>rand_table\<close>) that is called as \<open>_D(g)\<close> on a random engine
  \<open>g\<close>, returns one digit and changes the state of both.  The pair of the two states is
  the type variable \<open>'g\<close>.  A digit generator is the record of what the templates use of
  it: the static members \<open>base\<close> (0 stands for \<open>2^32\<close>), \<open>max_value\<close>, \<open>bits\<close> and
  \<open>power_of_two\<close>, and the call \<open>operator()\<close> as a function from the state to the digit
  and the new state.  The C++ engines never run dry, so a loop that draws digits until a
  comparison is decided may run forever: such loops are partial functions into
  \<open>option\<close>, where \<open>None\<close> is the run that does not return.

  The signed C++ types (\<open>int\<close> with 32 bits, \<open>long long\<close> with 64 bits) are modelled
  by the integers.  Overflow in signed arithmetic is undefined behaviour in C++, so the
  model says what the code computes in the runs where every signed intermediate value is
  representable; \<open>in_int\<close> and \<open>in_ll\<close> say that a value is, and the theorems carry
  these conditions.  A conversion to \<open>int\<close> of a value of a wider or an unsigned type
  (a cast \<open>int(x)\<close>, or the initialisation of an \<open>int\<close>) is \<open>to_int\<close>: the value is
  reduced modulo \<open>2\<^sup>3\<^sup>2\<close> into the range of \<open>int\<close>.
\<close>

record 'g digit_gen =
  dg_base :: nat
  dg_max_value :: nat
  dg_bits :: nat
  dg_power_of_two :: bool
  dg_draw :: "'g \<Rightarrow> nat \<times> 'g"

text \<open>
  A digit generator for examples: it has base \<open>b\<close> and hands out the digits of the list
  \<open>ds\<close> over and over; its state is the number of digits drawn so far.
\<close>

definition cyclic_gen :: "nat \<Rightarrow> nat list \<Rightarrow> nat digit_gen" where
  "cyclic_gen b ds =
     \<lparr>dg_base = b, dg_max_value = b - 1, dg_bits = 0, dg_power_of_two = False,
      dg_draw = (\<lambda>k. (ds ! (k mod length ds), Suc k))\<rparr>"

text \<open>C++ integer division truncates towards zero, and the remainder has the sign of the dividend.\<close>

definition cdiv :: "int \<Rightarrow> int \<Rightarrow> int" where
  "cdiv x y = sgn x * sgn y * (\<bar>x\<bar> div \<bar>y\<bar>)"

definition crem :: "int \<Rightarrow> int \<Rightarrow> int" where
  "crem x y = sgn x * (\<bar>x\<bar> mod \<bar>y\<bar>)"


text \<open>The ranges of \<open>int\<close> and \<open>long long\<close>, and the conversion to \<open>int\<close>.\<close>

definition int_min :: int where "int_min = - (2 ^ 31)"
definition maxint :: int where "maxint = 2 ^ 31 - 1"
definition maxll :: int where "maxll = 2 ^ 63 - 1"

definition in_int :: "int \<Rightarrow> bool" where
  "in_int x = (int_min \<le> x \<and> x \<le> maxint)"


definition to_int :: "int \<Rightarrow> int" where
  "to_int x = (let v = x mod 2 ^ 32 in if v < 2 ^ 31 then v else v - 2 ^ 32)"
section \<open>digit_arithmetic.hpp and rand_digit.hpp\<close>

text \<open>
  \<open>uint_t\<close> is \<open>std::uint_fast32_t\<close>, modelled with 64 bits (as on 64-bit Linux, where
  \<open>uint_w = 64\<close>); \<open>unsigned\<close> has 32 bits.  The template argument \<open>b\<close> is a \<open>uint_t\<close>.
\<close>

type_synonym uint_t = "64 word"

definition uint_w :: int where "uint_w = 64"

definition uint_m :: uint_t where "uint_m = 0xffffffff"

function highest_bit_idx :: "32 word \<Rightarrow> int" where
  "highest_bit_idx x = (if x = 0 then 0 else 1 + highest_bit_idx (drop_bit 1 x))"
  by pat_completeness auto
termination
proof (relation "measure unat", goal_cases)
  case 1
  show ?case by simp
next
  case (2 x)
  have "unat (drop_bit 1 x) = unat x div 2"
    by (simp only: unat_drop_bit_eq) (simp add: drop_bit_eq_div)
  moreover from 2 have "unat x \<noteq> 0"
    by (simp add: unsigned_eq_0_iff)
  ultimately have "unat (drop_bit 1 x) < unat x"
    by simp
  then show ?case by (simp only: in_measure)
qed

declare highest_bit_idx.simps [simp del]

definition base :: "uint_t \<Rightarrow> uint_t" where
  "base b = b AND uint_m"

definition basem1 :: "uint_t \<Rightarrow> uint_t" where
  "basem1 b = (if base b \<noteq> 0 then base b - 1 else uint_m)"

definition bits :: "uint_t \<Rightarrow> int" where
  "bits b = highest_bit_idx (ucast (basem1 b))"

definition power_of_two :: "uint_t \<Rightarrow> bool" where
  "power_of_two b =
     (basem1 b = (if bits b = uint_w then NOT 0
                  else NOT (push_bit (nat (if bits b < uint_w then bits b else 0)) (NOT 0))))"

text \<open>
  A random engine of type \<open>Generator\<close>: the static members \<open>min()\<close> and \<open>max()\<close>, and the
  call \<open>g()\<close> on the engine's state.  The member \<open>_gen\<close> of \<open>rand_digit\<close> is a
  \<open>std::uniform_int_distribution<uint_t>\<close> of the C++ standard library; its call with
  the engine and the bounds \<open>a\<close>, \<open>b\<close> is the parameter \<open>uid\<close> of the model.
\<close>

record 'e generator =
  g_min :: "64 word"
  g_max :: "64 word"
  g_call :: "'e \<Rightarrow> 64 word \<times> 'e"

type_synonym 'e uniform_int_distribution = "'e \<Rightarrow> uint_t \<Rightarrow> uint_t \<Rightarrow> uint_t \<times> 'e"

definition min_value :: uint_t where "min_value = 0"

definition max_value :: "uint_t \<Rightarrow> uint_t" where "max_value b = basem1 b"

text \<open>
  \<open>rand_digit<b>::operator()\<close> on the count \<open>_count\<close> and the state of the engine; the
  constructor sets the count to 0.
\<close>

definition rand_digit_call ::
  "uint_t \<Rightarrow> 'e uniform_int_distribution \<Rightarrow> 'e generator \<Rightarrow> int \<times> 'e \<Rightarrow> uint_t \<times> int \<times> 'e" where
  "rand_digit_call b uid G = (\<lambda>(count, e).
     let count' = count + 1 in
     if power_of_two b \<and> g_min G = 0 \<and> g_max G = 0xffffffff then
       (case g_call G e of (w, e') \<Rightarrow> (drop_bit (nat (32 - bits b)) w, count', e'))
     else if power_of_two b \<and> g_min G = 0 \<and> g_max G = 0xffffffffffffffff then
       (case g_call G e of (w, e') \<Rightarrow> (drop_bit (nat (32 - bits b)) (w AND 0xffffffff), count', e'))
     else
       (case uid e min_value (max_value b) of (d, e') \<Rightarrow> (d, count', e')))"

definition rand_digit_count :: "int \<times> 'e \<Rightarrow> int" where
  "rand_digit_count = fst"

text \<open>\<open>n\<close> calls in a row: the digits in the order drawn, and the state after them.\<close>

fun rand_digit_calls ::
  "uint_t \<Rightarrow> 'e uniform_int_distribution \<Rightarrow> 'e generator \<Rightarrow> nat \<Rightarrow> int \<times> 'e
     \<Rightarrow> uint_t list \<times> int \<times> 'e" where
  "rand_digit_calls b uid G 0 st = ([], st)"
| "rand_digit_calls b uid G (Suc n) st =
     (case rand_digit_call b uid G st of (d, st') \<Rightarrow>
      case rand_digit_calls b uid G n st' of (ds, st'') \<Rightarrow> (d # ds, st''))"

text \<open>\<open>rand_digit<b>\<close> as a digit generator for the samplers.\<close>

definition rand_digit ::
  "uint_t \<Rightarrow> 'e uniform_int_distribution \<Rightarrow> 'e generator \<Rightarrow> (int \<times> 'e) digit_gen" where
  "rand_digit b uid G =
     \<lparr>dg_base = unat (base b), dg_max_value = unat (max_value b), dg_bits = nat (bits b),
      dg_power_of_two = power_of_two b,
      dg_draw = (\<lambda>st. case rand_digit_call b uid G st of (d, st') \<Rightarrow> (unat d, st'))\<rparr>"


text \<open>
  The base as a number: \<open>base = 0\<close> stands for \<open>2\<^sup>3\<^sup>2\<close> (``Base b = 0 is treated as
  \<open>2\<^sup>3\<^sup>2\<close>'').
\<close>

definition radix :: "uint_t \<Rightarrow> nat" where
  "radix b = (if base b = 0 then 2 ^ 32 else unat (base b))"

text \<open>
  Two examples for the parameters: an engine with \<open>min() = 0\<close> and \<open>max() = 2\<^sup>3\<^sup>2 - 1\<close> (a
  linear congruential step on the state, of which the low 32 bits are returned), and a
  function that returns a value between the bounds it is given.
\<close>

definition lcg :: "uint_t generator" where
  "lcg = \<lparr>g_min = 0, g_max = 0xffffffff,
          g_call = (\<lambda>e. (e AND 0xffffffff, 1664525 * e + 1013904223))\<rparr>"

definition clamp_uid :: "uint_t uniform_int_distribution" where
  "clamp_uid e a c = (if a \<le> e \<and> e \<le> c then e else a, e + 1)"
section \<open>i_rand.hpp\<close>

text \<open>
  The fields \<open>_a\<close>, \<open>_d\<close>, \<open>_l\<close>: the current range is \<open>_a + [0, _d)\<close>.  The class
  constant is \<open>static const int b = digit_gen::base\<close>: the base, a \<open>uint_t\<close>, converted to
  \<open>int\<close>; it is the base itself when that is at most \<open>2\<^sup>3\<^sup>1 - 1\<close>.
\<close>

definition i_b :: "'g digit_gen \<Rightarrow> int" where
  "i_b D = to_int (int (dg_base D))"

record i_rand =
  i_a :: int
  i_d :: int
  i_l :: int

text \<open>The constructor \<open>i_rand(D)\<close>.\<close>

definition i_rand0 :: i_rand where
  "i_rand0 = \<lparr>i_a = 0, i_d = 1, i_l = 0\<rparr>"

definition i_min :: "i_rand \<Rightarrow> int" where
  "i_min r = i_a r"

definition i_max :: "i_rand \<Rightarrow> int" where
  "i_max r = i_a r + i_d r - 1"

definition entropy :: "i_rand \<Rightarrow> int" where
  "entropy r = i_l r"

text \<open>
  The inner loop of \<open>init\<close> over \<open>w\<close>, \<open>a\<close>, \<open>d\<close> and the member \<open>_l\<close>.  It leaves
  either by \<open>return\<close>, with the values stored in \<open>_a\<close>, \<open>_d\<close> and \<open>_l\<close>, or by
  \<open>break\<close>.
\<close>

datatype inner_exit = Return int int int | Break

partial_function (option) init_inner ::
  "int \<Rightarrow> int \<Rightarrow> int \<Rightarrow> int \<Rightarrow> int \<Rightarrow> int \<Rightarrow> inner_exit option" where
  "init_inner b m w a d l =
     (if w \<ge> m then
        (let j = cdiv a m * m; a' = a - j; w' = w - j in
         if w' \<ge> m then
           (if a' + d \<le> m then Some (Return a' d l) else Some Break)
         else init_inner b m (w' * b) (a' * b) (d * b) (l + 1))
      else init_inner b m (w * b) (a * b) (d * b) (l + 1))"

declare init_inner.simps [code]

text \<open>The outer loop of \<open>init\<close> over \<open>v\<close> and \<open>c\<close>; each round starts with \<open>_l = 0\<close>.\<close>

partial_function (option) init_outer ::
  "'g digit_gen \<Rightarrow> int \<Rightarrow> int \<Rightarrow> int \<Rightarrow> 'g \<Rightarrow> (i_rand \<times> 'g) option" where
  "init_outer D m v c g =
     Option.bind (init_inner (i_b D) m v c 1 0) (\<lambda>e.
       case e of
         Return a d l \<Rightarrow> Some (\<lparr>i_a = a, i_d = d, i_l = l\<rparr>, g)
       | Break \<Rightarrow>
           (let j = cdiv v m * m; v' = v - j; c' = c - j in
            case dg_draw D g of (x, g') \<Rightarrow>
              init_outer D m (v' * i_b D) (c' * i_b D + int x) g'))"

declare init_outer.simps [code]

definition init :: "'g digit_gen \<Rightarrow> 'g \<Rightarrow> int \<Rightarrow> (i_rand \<times> 'g) option" where
  "init D g m = (let m' = (if m \<le> 0 then 1 else m) in init_outer D m' 1 0 g)"

definition negate :: "i_rand \<Rightarrow> i_rand" where
  "negate r = r\<lparr>i_a := - i_max r\<rparr>"

definition add :: "int \<Rightarrow> i_rand \<Rightarrow> i_rand" where
  "add c r = r\<lparr>i_a := i_a r + c\<rparr>"

definition refine :: "'g digit_gen \<Rightarrow> i_rand \<Rightarrow> 'g \<Rightarrow> i_rand \<times> 'g" where
  "refine D r g =
     (if i_l r > 0 then
        (let l' = i_l r - 1; d' = cdiv (i_d r) (i_b D) in
         case dg_draw D g of (x, g') \<Rightarrow> (\<lparr>i_a = i_a r + int x * d', i_d = d', i_l = l'\<rparr>, g'))
      else (r, g))"

text \<open>\<open>operator()\<close>: \<open>while (_l) refine(g); return _a;\<close>\<close>

partial_function (option) i_call ::
  "'g digit_gen \<Rightarrow> i_rand \<Rightarrow> 'g \<Rightarrow> (int \<times> i_rand \<times> 'g) option" where
  "i_call D r g =
     (if i_l r \<noteq> 0 then (case refine D r g of (r', g') \<Rightarrow> i_call D r' g')
      else Some (i_a r, r, g))"

declare i_call.simps [code]

partial_function (option) i_less_than ::
  "'g digit_gen \<Rightarrow> i_rand \<Rightarrow> 'g \<Rightarrow> int \<Rightarrow> int \<Rightarrow> (bool \<times> i_rand \<times> 'g) option" where
  "i_less_than D r g m n =
     (if n * i_max r < m then Some (True, r, g)
      else if \<not> (n * i_min r < m) then Some (False, r, g)
      else (case refine D r g of (r', g') \<Rightarrow> i_less_than D r' g' m n))"

declare i_less_than.simps [code]

definition i_less_than_equal ::
  "'g digit_gen \<Rightarrow> i_rand \<Rightarrow> 'g \<Rightarrow> int \<Rightarrow> int \<Rightarrow> (bool \<times> i_rand \<times> 'g) option" where
  "i_less_than_equal D r g m n = i_less_than D r g (m + 1) n"

definition i_greater_than ::
  "'g digit_gen \<Rightarrow> i_rand \<Rightarrow> 'g \<Rightarrow> int \<Rightarrow> int \<Rightarrow> (bool \<times> i_rand \<times> 'g) option" where
  "i_greater_than D r g m n =
     map_option (\<lambda>(t, r', g'). (\<not> t, r', g')) (i_less_than_equal D r g m n)"



text \<open>
  The members of the class compute in \<open>int\<close> (\<open>_a + _d - 1\<close> in \<open>max()\<close>, \<open>-max()\<close> in
  \<open>negate()\<close>, \<open>_a += c\<close> in \<open>add\<close>) and the comparisons in \<open>long long\<close>
  (\<open>n * max()\<close>, \<open>n * min()\<close>, and \<open>m + 1\<close> in \<open>less_than_equal\<close>).  \<open>i_rep r\<close>: the
  fields of \<open>r\<close> are \<open>int\<close>s, and \<open>max()\<close> computes \<open>_a + _d\<close> and \<open>_a + _d - 1\<close> without
  overflow.  \<open>negate_ok r\<close>, \<open>add_ok c r\<close> and \<open>less_than_ok r m n\<close>: the call is made
  with \<open>int\<close> and \<open>long long\<close> arguments and no value it computes overflows
  (\<open>less_than\<close> moreover requires \<open>n > 0\<close>).
\<close>

definition i_rep :: "i_rand \<Rightarrow> bool" where
  "i_rep r = (in_int (i_a r) \<and> in_int (i_d r) \<and> in_int (i_l r)
              \<and> in_int (i_a r + i_d r) \<and> in_int (i_a r + i_d r - 1))"

definition negate_ok :: "i_rand \<Rightarrow> bool" where
  "negate_ok r = (i_rep r \<and> in_int (- i_max r))"

definition add_ok :: "int \<Rightarrow> i_rand \<Rightarrow> bool" where
  "add_ok c r = (i_rep r \<and> in_int c \<and> in_int (i_a r + c))"

text \<open>
  The invariant the header states for the fields (\<open>_d = b^_l\<close>), and the states of an
  i-rand object that its public interface can produce from the constructor by calls
  in which no signed value overflows and after which \<open>min()\<close> and \<open>max()\<close> can be read:
  \<open>init\<close> is called with an \<open>int\<close>, \<open>negate\<close>, \<open>add\<close> and the comparisons under the
  conditions above.
\<close>

definition i_inv :: "int \<Rightarrow> i_rand \<Rightarrow> bool" where
  "i_inv b r = (0 \<le> i_l r \<and> i_d r = b ^ nat (i_l r))"

section \<open>u_rand.hpp\<close>

text \<open>
  The fields \<open>_s\<close> (the sign), \<open>_n\<close> (the integer part, \<open>unsigned\<close>) and \<open>_d\<close> (the
  digits of the fraction, a vector of \<open>uint_t\<close>).  The class constant \<open>bm1\<close> is
  \<open>digit_gen::max_value\<close>, the base less one; the header \<open>digit_arithmetic.hpp\<close> requires
  it to be at least 1, so the unsigned subtraction \<open>bm1 - 1U\<close> does not wrap.
\<close>

record u_rand =
  u_s :: int
  u_n :: nat
  u_d :: "nat list"

text \<open>The constructor and \<open>init()\<close> give the same state.\<close>

definition u_init :: u_rand where
  "u_init = \<lparr>u_s = 1, u_n = 0, u_d = []\<rparr>"

definition bm1 :: "'g digit_gen \<Rightarrow> nat" where
  "bm1 D = dg_max_value D"

definition ndigits :: "u_rand \<Rightarrow> nat" where
  "ndigits u = length (u_d u)"

text \<open>The loop of \<open>digit\<close>: \<open>for (size_t i = ndigits(); i <= k; ++i) _d.push_back(_D(g));\<close>\<close>

function digit_fill :: "'g digit_gen \<Rightarrow> u_rand \<Rightarrow> 'g \<Rightarrow> nat \<Rightarrow> u_rand \<times> 'g" where
  "digit_fill D u g k =
     (if ndigits u \<le> k then
        (case dg_draw D g of (x, g') \<Rightarrow> digit_fill D (u\<lparr>u_d := u_d u @ [x]\<rparr>) g' k)
      else (u, g))"
  by pat_completeness auto
termination
  by (relation "measure (\<lambda>(D, u, g, k). Suc k - ndigits u)") (auto simp: ndigits_def)

definition digit :: "'g digit_gen \<Rightarrow> u_rand \<Rightarrow> 'g \<Rightarrow> nat \<Rightarrow> nat \<times> u_rand \<times> 'g" where
  "digit D u g k = (case digit_fill D u g k of (u', g') \<Rightarrow> (u_d u' ! k, u', g'))"

text \<open>\<open>rawdigit(k)\<close> reads a digit that was generated before.\<close>

definition rawdigit :: "u_rand \<Rightarrow> nat \<Rightarrow> nat" where
  "rawdigit u k = u_d u ! k"

definition set_integer :: "nat \<Rightarrow> u_rand \<Rightarrow> u_rand" where
  "set_integer n u = u\<lparr>u_n := n\<rparr>"

partial_function (option) truncatep ::
  "'g digit_gen \<Rightarrow> u_rand \<Rightarrow> 'g \<Rightarrow> nat \<Rightarrow> (bool \<times> u_rand \<times> 'g) option" where
  "truncatep D u g k =
     (case digit D u g k of (d, u', g') \<Rightarrow>
        if d \<le> (bm1 D - 1) div 2 then Some (True, u', g')
        else if d > bm1 D div 2 then Some (False, u', g')
        else truncatep D u' g' (k + 1))"

declare truncatep.simps [code]

definition less_than_half ::
  "'g digit_gen \<Rightarrow> u_rand \<Rightarrow> 'g \<Rightarrow> (bool \<times> u_rand \<times> 'g) option" where
  "less_than_half D u g =
     (if u_s u < 0 then Some (True, u, g)
      else if u_n u > 0 then Some (False, u, g)
      else truncatep D u g 0)"

text \<open>
  \<open>less_than(g, t)\<close> on two distinct objects (the samplers only ever compare distinct
  scratch objects; on the same object the function returns \<open>false\<close> at once).  In the
  loop the digit of \<open>*this\<close> is drawn before the digit of \<open>t\<close>.
\<close>

partial_function (option) less_than_digits ::
  "'g digit_gen \<Rightarrow> u_rand \<Rightarrow> u_rand \<Rightarrow> 'g \<Rightarrow> nat \<Rightarrow> (bool \<times> u_rand \<times> u_rand \<times> 'g) option" where
  "less_than_digits D u t g k =
     (case digit D u g k of (a, u', g') \<Rightarrow>
      case digit D t g' k of (b, t', g'') \<Rightarrow>
        if a \<noteq> b then Some ((u_s u < 0) \<noteq> (a < b), u', t', g'')
        else less_than_digits D u' t' g'' (k + 1))"

declare less_than_digits.simps [code]

definition less_than ::
  "'g digit_gen \<Rightarrow> u_rand \<Rightarrow> u_rand \<Rightarrow> 'g \<Rightarrow> (bool \<times> u_rand \<times> u_rand \<times> 'g) option" where
  "less_than D u t g =
     (if u_s u \<noteq> u_s t then Some (u_s u < u_s t, u, t, g)
      else if u_n u \<noteq> u_n t then Some ((u_s u < 0) \<noteq> (u_n u < u_n t), u, t, g)
      else less_than_digits D u t g 0)"

text \<open>
  \<open>compare(g, u1, u2, v)\<close>: the loop over the digits, and the function with the two
  numerators reduced by the sign and the integer part first.  \<open>lbase\<close> is \<open>base\<close> as a
  \<open>long long\<close>.
\<close>

definition lbase :: "'g digit_gen \<Rightarrow> int" where
  "lbase D = int (dg_base D)"

partial_function (option) compare_loop ::
  "'g digit_gen \<Rightarrow> u_rand \<Rightarrow> 'g \<Rightarrow> int \<Rightarrow> int \<Rightarrow> int \<Rightarrow> nat \<Rightarrow> (int \<times> u_rand \<times> 'g) option" where
  "compare_loop D u g u1 u2 v k =
     (if u1 \<ge> v then Some (- u_s u, u, g)
      else if u2 \<le> 0 then Some (u_s u, u, g)
      else if u1 \<le> 0 \<and> u2 \<ge> v then Some (0, u, g)
      else (case digit D u g k of (d, u', g') \<Rightarrow>
              compare_loop D u' g' (max 0 (u1 * lbase D - int d * v))
                (min v (u2 * lbase D - int d * v)) v (k + 1)))"

declare compare_loop.simps [code]

definition compare ::
  "'g digit_gen \<Rightarrow> u_rand \<Rightarrow> 'g \<Rightarrow> int \<Rightarrow> int \<Rightarrow> int \<Rightarrow> (int \<times> u_rand \<times> 'g) option" where
  "compare D u g u1 u2 v =
     compare_loop D u g (max 0 (u_s u * u1 - int (u_n u) * v))
       (min v (u_s u * u2 - int (u_n u) * v)) v 0"

text \<open>\<open>less_than(g, u0, c, v, h)\<close>: the comparison of a u-rand with \<open>(u0 + c h)/v\<close> for an i-rand \<open>h\<close>.\<close>

partial_function (option) less_than_irand ::
  "'g digit_gen \<Rightarrow> u_rand \<Rightarrow> i_rand \<Rightarrow> 'g \<Rightarrow> int \<Rightarrow> int \<Rightarrow> int
     \<Rightarrow> (bool \<times> u_rand \<times> i_rand \<times> 'g) option" where
  "less_than_irand D u h g u0 c v =
     Option.bind (compare D u g (u0 + i_min h * c) (u0 + i_max h * c) v) (\<lambda>(r, u', g').
       if r < 0 then Some (True, u', h, g')
       else if r > 0 then Some (False, u', h, g')
       else (case refine D h g' of (h', g'') \<Rightarrow> less_than_irand D u' h' g'' u0 c v))"

declare less_than_irand.simps [code]

section \<open>unit_exponential_dist.hpp\<close>

text \<open>
  The members \<open>_v\<close> and \<open>_w\<close> of the sampler are scratch u-rands; \<open>F\<close> and \<open>generate\<close>
  return the sampler with the u-rand \<open>p\<close> (or \<open>x\<close>) they work on.  \<open>bo\<close> is the template
  argument \<open>bit_optimized\<close>, for which the class requires an even base (\<open>bm1\<close> odd).
\<close>

record unit_exponential_dist =
  e_v :: u_rand
  e_w :: u_rand

text \<open>The unrolled loop of \<open>F\<close>.\<close>

partial_function (option) F_loop ::
  "'g digit_gen \<Rightarrow> unit_exponential_dist \<Rightarrow> 'g \<Rightarrow> (bool \<times> unit_exponential_dist \<times> 'g) option" where
  "F_loop D S g =
     Option.bind (less_than D u_init (e_w S) g) (\<lambda>(lt, v', w', g').
       if \<not> lt then Some (False, \<lparr>e_v = v', e_w = w'\<rparr>, g')
       else Option.bind (less_than D u_init v' g') (\<lambda>(lt', w'', v'', g'').
         if \<not> lt' then Some (True, \<lparr>e_v = v'', e_w = w''\<rparr>, g'')
         else F_loop D \<lparr>e_v = v'', e_w = w''\<rparr> g''))"

declare F_loop.simps [code]

definition F ::
  "'g digit_gen \<Rightarrow> bool \<Rightarrow> unit_exponential_dist \<Rightarrow> u_rand \<Rightarrow> 'g
     \<Rightarrow> (bool \<times> unit_exponential_dist \<times> u_rand \<times> 'g) option" where
  "F D bo S p g =
     Option.bind (if bo then less_than_half D u_init g else Some (True, u_init, g))
       (\<lambda>(h, p', g').
          if bo \<and> \<not> h then Some (False, S, p', g')
          else Option.bind (less_than D u_init p' g') (\<lambda>(lt, w', p'', g'').
            if \<not> lt then Some (True, S\<lparr>e_w := w'\<rparr>, p'', g'')
            else map_option (\<lambda>(r, S', g3). (r, S', p'', g3)) (F_loop D (S\<lparr>e_w := w'\<rparr>) g'')))"

text \<open>The loop \<open>while (!F(g, x)) ++k;\<close> of \<open>generate\<close>.\<close>

partial_function (option) generate_loop ::
  "'g digit_gen \<Rightarrow> bool \<Rightarrow> unit_exponential_dist \<Rightarrow> u_rand \<Rightarrow> 'g \<Rightarrow> int
     \<Rightarrow> (int \<times> unit_exponential_dist \<times> u_rand \<times> 'g) option" where
  "generate_loop D bo S u g k =
     Option.bind (F D bo S u g) (\<lambda>(ok, S', u', g').
       if \<not> ok then generate_loop D bo S' u' g' (k + 1)
       else Some (k, S', u', g'))"

declare generate_loop.simps [code]

definition generate ::
  "'g digit_gen \<Rightarrow> bool \<Rightarrow> unit_exponential_dist \<Rightarrow> u_rand \<Rightarrow> 'g
     \<Rightarrow> (unit_exponential_dist \<times> u_rand \<times> 'g) option" where
  "generate D bo S x g =
     Option.bind (generate_loop D bo S x g 0) (\<lambda>(k, S', x', g').
       let x1 = (if bo \<and> crem k 2 \<noteq> 0
                 then x'\<lparr>u_d := (u_d x')[0 := rawdigit x' 0 + ((bm1 D - 1) div 2 + 1)]\<rparr>
                 else x');
           x2 = set_integer (nat (if bo then cdiv k 2 else k)) x1
       in Some (S', x2, g'))"

text \<open>
  \<open>F_fails n\<close> is the state after \<open>n\<close> calls of \<open>F\<close> in a row that all returned \<open>false\<close>;
  it is used to say how often the loop of \<open>generate\<close> went round.
\<close>

fun F_fails ::
  "'g digit_gen \<Rightarrow> bool \<Rightarrow> nat \<Rightarrow> unit_exponential_dist \<Rightarrow> u_rand \<Rightarrow> 'g
     \<Rightarrow> (unit_exponential_dist \<times> u_rand \<times> 'g) option" where
  "F_fails D bo 0 S x g = Some (S, x, g)"
| "F_fails D bo (Suc n) S x g =
     Option.bind (F D bo S x g) (\<lambda>(ok, S', x', g').
       if ok then None else F_fails D bo n S' x' g')"

text \<open>\<open>extends u u'\<close>: \<open>u'\<close> is \<open>u\<close> with further digits appended.\<close>

definition extends :: "u_rand \<Rightarrow> u_rand \<Rightarrow> bool" where
  "extends u u' = (u_s u' = u_s u \<and> u_n u' = u_n u \<and> take (ndigits u) (u_d u') = u_d u
                   \<and> ndigits u \<le> ndigits u')"

section \<open>discrete_normal_dist.hpp\<close>

subsection \<open>The parameters\<close>

text \<open>The errors are the \<open>std::runtime_error\<close>s the constructors throw, named by their messages.\<close>

datatype runtime_error =
    Need_sigma_positive
  | Sigma_or_mu_overflow
  | Possible_overflow_a
  | Possible_overflow_b
  | Possible_overflow_c

record param_type =
  pt_mu_num :: int
  pt_mu_den :: int
  pt_sigma_num :: int
  pt_sigma_den :: int

text \<open>\<open>gcd\<close> (Knuth, Algorithm A): the loop, and the function with the absolute values taken.\<close>

function gcd_loop :: "int \<Rightarrow> int \<Rightarrow> int" where
  "gcd_loop u v = (if v > 0 then gcd_loop v (crem u v) else u)"
  by pat_completeness auto
termination
proof (relation "measure (\<lambda>(u, v). nat v)", goal_cases)
  case 1
  show ?case by simp
next
  case (2 u v)
  then have "0 \<le> \<bar>u\<bar> mod v" and "\<bar>u\<bar> mod v < v"
    by simp_all
  with 2 have "crem u v < v"
    by (cases "u < 0") (auto simp: crem_def sgn_if)
  with 2 show ?case by simp
qed

declare gcd_loop.simps [simp del]

definition gcd_dn :: "int \<Rightarrow> int \<Rightarrow> int" where
  "gcd_dn u v = gcd_loop \<bar>u\<bar> \<bar>v\<bar>"

definition iceil :: "int \<Rightarrow> int \<Rightarrow> int" where
  "iceil n d = (let k = cdiv n d in k + (if k * d < n then 1 else 0))"

definition param_init :: "int \<Rightarrow> int \<Rightarrow> int \<Rightarrow> int \<Rightarrow> runtime_error + param_type" where
  "param_init mu_num mu_den sigma_num sigma_den =
     (if \<not> (sigma_num > 0 \<and> sigma_den > 0 \<and> mu_den > 0 \<and> mu_num > int_min)
      then Inl Need_sigma_positive
      else
        (let l = gcd_dn mu_num mu_den;
             mn = cdiv mu_num l; md = cdiv mu_den l;
             l' = gcd_dn sigma_num sigma_den
         in Inr \<lparr>pt_mu_num = mn, pt_mu_den = md,
                 pt_sigma_num = cdiv sigma_num l', pt_sigma_den = cdiv sigma_den l'\<rparr>))"

text \<open>The default constructor of \<open>param_type\<close>, and equality.\<close>

definition param_default :: param_type where
  "param_default = \<lparr>pt_mu_num = 0, pt_mu_den = 1, pt_sigma_num = 1, pt_sigma_den = 1\<rparr>"

definition param_eq :: "param_type \<Rightarrow> param_type \<Rightarrow> bool" where
  "param_eq p1 p2 =
     (pt_mu_num p1 = pt_mu_num p2 \<and> pt_mu_den p1 = pt_mu_den p2 \<and>
      pt_sigma_num p1 = pt_sigma_num p2 \<and> pt_sigma_den p1 = pt_sigma_den p2)"

text \<open>
  What the overflow guards of \<open>init()\<close> are to ensure, in the terms of the specification:
  with \<open>\<mu> = p/q\<close> and \<open>\<sigma> = r/s\<close> in lowest terms, \<open>_sig = r (q / gcd(q, s))\<close>,
  \<open>_d = s (q / gcd(q, s))\<close>, \<open>_isig = \<lceil>r/s\<rceil>\<close> and \<open>_imu\<close> the integer part of \<open>p/q\<close>:
  \<open>_isig _d\<close> and \<open>max(2, _sig) b kmax\<close> fit in a \<open>long long\<close>, and \<open>_isig kmax\<close> and
  \<open>|_imu| + _isig kmax\<close> fit in an \<open>int\<close>.
\<close>

definition overflow_guards :: "'g digit_gen \<Rightarrow> int \<Rightarrow> int \<Rightarrow> int \<Rightarrow> int \<Rightarrow> bool" where
  "overflow_guards D mu_num mu_den sigma_num sigma_den =
     (let p = mu_num div gcd mu_num mu_den; q = mu_den div gcd mu_num mu_den;
          r = sigma_num div gcd sigma_num sigma_den; s = sigma_den div gcd sigma_num sigma_den;
          sig = r * (q div gcd q s); d = s * (q div gcd q s);
          isig = \<lceil>(of_int r :: rat) / of_int s\<rceil>;
          imu = cdiv p q
      in isig * d \<le> 2 ^ 63 - 1 \<and> isig * 51 \<le> 2 ^ 31 - 1 \<and> \<bar>imu\<bar> + isig * 51 \<le> 2 ^ 31 - 1
         \<and> max 2 sig * (int (dg_base D) * 51) \<le> 2 ^ 63 - 1)"

subsection \<open>The sampler\<close>

text \<open>
  The members of \<open>discrete_normal_dist\<close>: the parameters, the integers \<open>init()\<close> derives
  from them, and the scratch objects \<open>_y\<close>, \<open>_z\<close> and \<open>_j\<close>.
\<close>

record discrete_normal_dist =
  dn_param :: param_type
  dn_sig :: int
  dn_mu :: int
  dn_d :: int
  dn_imu :: int
  dn_isig :: int
  dn_y :: u_rand
  dn_z :: u_rand
  dn_j :: i_rand

definition kmax :: int where "kmax = 50 + 1"

text \<open>\<open>init()\<close>, run by every constructor after the parameters are stored.\<close>

definition dn_init :: "'g digit_gen \<Rightarrow> param_type \<Rightarrow> runtime_error + discrete_normal_dist" where
  "dn_init D p =
     (let imu = cdiv (pt_mu_num p) (pt_mu_den p);
          fmu_num = pt_mu_num p - imu * pt_mu_den p;
          isig = iceil (pt_sigma_num p) (pt_sigma_den p);
          l = gcd_dn (pt_sigma_den p) (pt_mu_den p)
      in
      if \<not> (cdiv (pt_mu_den p) l \<le> cdiv maxll (pt_sigma_num p) \<and>
             \<bar>fmu_num\<bar> \<le> cdiv maxll (cdiv (pt_sigma_den p) l) \<and>
             cdiv (pt_mu_den p) l \<le> cdiv maxll (pt_sigma_den p))
      then Inl Sigma_or_mu_overflow
      else
        (let sig = pt_sigma_num p * cdiv (pt_mu_den p) l;
             mu = fmu_num * cdiv (pt_sigma_den p) l;
             d = pt_sigma_den p * cdiv (pt_mu_den p) l
         in
         if \<not> (isig \<le> cdiv maxll d) then Inl Sigma_or_mu_overflow
         else if \<not> (isig \<le> cdiv maxint kmax) then Inl Possible_overflow_a
         else if \<not> (\<bar>imu\<bar> \<le> maxint - isig * kmax) then Inl Possible_overflow_b
         else if \<not> (max 2 sig \<le> cdiv maxll (i_b D * kmax)) then Inl Possible_overflow_c
         else Inr \<lparr>dn_param = p, dn_sig = sig, dn_mu = mu, dn_d = d, dn_imu = imu,
                   dn_isig = isig, dn_y = u_init, dn_z = u_init, dn_j = i_rand0\<rparr>))"

text \<open>The constructor from the four integers: the parameters are checked and reduced, then \<open>init()\<close> runs.\<close>

definition dn_construct ::
  "'g digit_gen \<Rightarrow> int \<Rightarrow> int \<Rightarrow> int \<Rightarrow> int \<Rightarrow> runtime_error + discrete_normal_dist" where
  "dn_construct D mu_num mu_den sigma_num sigma_den =
     (case param_init mu_num mu_den sigma_num sigma_den of
        Inl e \<Rightarrow> Inl e
      | Inr p \<Rightarrow> dn_init D p)"

subsection \<open>Algorithms H, G (step N1), P (step N2) and B\<close>

partial_function (option) H_loop ::
  "'g digit_gen \<Rightarrow> discrete_normal_dist \<Rightarrow> 'g \<Rightarrow> (bool \<times> discrete_normal_dist \<times> 'g) option" where
  "H_loop D S g =
     Option.bind (less_than D u_init (dn_y S) g) (\<lambda>(lt, z, y, g1).
       if \<not> lt then Some (False, S\<lparr>dn_y := y, dn_z := z\<rparr>, g1)
       else Option.bind (less_than D u_init z g1) (\<lambda>(lt', y', z', g2).
         if \<not> lt' then Some (True, S\<lparr>dn_y := y', dn_z := z'\<rparr>, g2)
         else H_loop D (S\<lparr>dn_y := y', dn_z := z'\<rparr>) g2))"

declare H_loop.simps [code]

definition H ::
  "'g digit_gen \<Rightarrow> discrete_normal_dist \<Rightarrow> 'g \<Rightarrow> (bool \<times> discrete_normal_dist \<times> 'g) option" where
  "H D S g =
     Option.bind (less_than_half D u_init g) (\<lambda>(h, y, g1).
       if \<not> h then Some (True, S\<lparr>dn_y := y\<rparr>, g1)
       else H_loop D (S\<lparr>dn_y := y\<rparr>) g1)"

text \<open>\<open>G\<close>: \<open>int n = 0; while (H(g)) ++n; return n;\<close>\<close>

partial_function (option) G_loop ::
  "'g digit_gen \<Rightarrow> discrete_normal_dist \<Rightarrow> 'g \<Rightarrow> int \<Rightarrow> (int \<times> discrete_normal_dist \<times> 'g) option" where
  "G_loop D S g n =
     Option.bind (H D S g) (\<lambda>(h, S', g').
       if h then G_loop D S' g' (n + 1) else Some (n, S', g'))"

declare G_loop.simps [code]

definition G ::
  "'g digit_gen \<Rightarrow> discrete_normal_dist \<Rightarrow> 'g \<Rightarrow> (int \<times> discrete_normal_dist \<times> 'g) option" where
  "G D S g = G_loop D S g 0"

text \<open>
  \<open>P\<close>: \<open>while (n-- && H(g)) {}; return n < 0;\<close>  The test reads \<open>n\<close> before it is
  decremented, and \<open>H\<close> is only called when that value is not zero.
\<close>

partial_function (option) P ::
  "'g digit_gen \<Rightarrow> discrete_normal_dist \<Rightarrow> 'g \<Rightarrow> int \<Rightarrow> (bool \<times> discrete_normal_dist \<times> 'g) option" where
  "P D S g n =
     (if n \<noteq> 0 then
        Option.bind (H D S g) (\<lambda>(h, S', g').
          if h then P D S' g' (n - 1) else Some (n - 1 < 0, S', g'))
      else Some (n - 1 < 0, S, g))"

declare P.simps [code]

text \<open>
  \<open>B(g, k, xn0, j)\<close>: the loop over \<open>n\<close>, which is left by one of four \<open>break\<close>s; the
  result is \<open>(n % 2) == 0\<close>.  \<open>f\<close> is computed before the first test when \<open>k = 0\<close> and
  after it when \<open>k > 0\<close>.
\<close>

partial_function (option) B_loop ::
  "'g digit_gen \<Rightarrow> discrete_normal_dist \<Rightarrow> i_rand \<Rightarrow> 'g \<Rightarrow> int \<Rightarrow> int \<Rightarrow> int
     \<Rightarrow> (bool \<times> discrete_normal_dist \<times> i_rand \<times> 'g) option" where
  "B_loop D S j g k xn0 n =
     (let m = 2 * k + 2 in
      Option.bind
        (if k > 0 then Some (0, S, g)
         else map_option (\<lambda>(f, z, g'). (f, S\<lparr>dn_z := z\<rparr>, g')) (compare D u_init g 1 2 m))
        (\<lambda>(f, S1, g1).
      if f < 0 then Some (crem n 2 = 0, S1, j, g1)
      else Option.bind
        (if n \<noteq> 0
         then map_option (\<lambda>(lt, z, y, g'). (lt, S1\<lparr>dn_y := y, dn_z := z\<rparr>, j, g'))
                (less_than D u_init (dn_y S1) g1)
         else map_option (\<lambda>(lt, z, j', g'). (lt, S1\<lparr>dn_z := z\<rparr>, j', g'))
                (less_than_irand D u_init j g1 xn0 (dn_d S1) (dn_sig S1)))
        (\<lambda>(lt, S2, j2, g2).
      if \<not> lt then Some (crem n 2 = 0, S2, j2, g2)
      else Option.bind
        (if k > 0
         then map_option (\<lambda>(f', y, g'). (f', S2\<lparr>dn_y := y\<rparr>, g')) (compare D u_init g2 1 2 m)
         else Some (f, S2, g2))
        (\<lambda>(f', S3, g3).
      if f' < 0 then Some (crem n 2 = 0, S3, j2, g3)
      else Option.bind
        (if f' = 0
         then map_option (\<lambda>(lt', y, j', g'). (\<not> lt', S3\<lparr>dn_y := y\<rparr>, j', g'))
                (less_than_irand D u_init j2 g3 xn0 (dn_d S3) (dn_sig S3))
         else Some (False, S3, j2, g3))
        (\<lambda>(brk, S4, j4, g4).
      if brk then Some (crem n 2 = 0, S4, j4, g4)
      else B_loop D (S4\<lparr>dn_y := dn_z S4, dn_z := dn_y S4\<rparr>) j4 g4 k xn0 (n + 1))))))"

declare B_loop.simps [code]

definition B ::
  "'g digit_gen \<Rightarrow> discrete_normal_dist \<Rightarrow> i_rand \<Rightarrow> 'g \<Rightarrow> int \<Rightarrow> int
     \<Rightarrow> (bool \<times> discrete_normal_dist \<times> i_rand \<times> 'g) option" where
  "B D S j g k xn0 = B_loop D S j g k xn0 0"

text \<open>Step 4 of \<open>generate\<close>: \<open>int h = k + 1; while (h-- && B(g, k, xn0, j)) {};\<close>, giving the last \<open>h\<close>.\<close>

partial_function (option) B_repeat ::
  "'g digit_gen \<Rightarrow> discrete_normal_dist \<Rightarrow> i_rand \<Rightarrow> 'g \<Rightarrow> int \<Rightarrow> int \<Rightarrow> int
     \<Rightarrow> (int \<times> discrete_normal_dist \<times> i_rand \<times> 'g) option" where
  "B_repeat D S j g k xn0 h =
     (if h \<noteq> 0 then
        Option.bind (B D S j g k xn0) (\<lambda>(ok, S', j', g').
          if ok then B_repeat D S' j' g' k xn0 (h - 1) else Some (h - 1, S', j', g'))
      else Some (h - 1, S, j, g))"

declare B_repeat.simps [code]

subsection \<open>generate\<close>

text \<open>
  The rejection test of \<open>generate\<close> after \<open>j.init(g, _isig)\<close>:
  \<open>!j.less_than(g, _sig - xn0, _d) || (k == 0 && s < 0 && !j.greater_than(g, -xn0, _d))\<close>.
  The second comparison is only made when the first operand of \<open>||\<close> is false and
  \<open>k == 0 && s < 0\<close>.
\<close>

definition reject_test ::
  "'g digit_gen \<Rightarrow> discrete_normal_dist \<Rightarrow> i_rand \<Rightarrow> 'g \<Rightarrow> int \<Rightarrow> int \<Rightarrow> int
     \<Rightarrow> (bool \<times> i_rand \<times> 'g) option" where
  "reject_test D S j g k s xn0 =
     Option.bind (i_less_than D j g (dn_sig S - xn0) (dn_d S)) (\<lambda>(lt, j', g').
       if \<not> lt then Some (True, j', g')
       else if k = 0 \<and> s < 0 then
         Option.bind (i_greater_than D j' g' (- xn0) (dn_d S)) (\<lambda>(gt, j'', g'').
           Some (\<not> gt, j'', g''))
       else Some (False, j', g'))"

text \<open>
  The candidate for a given \<open>k\<close>: the sign \<open>s\<close> from \<open>j.init(g, 2)(g)\<close>, the integers \<open>i0\<close>
  and \<open>xn0\<close>, the i-rand \<open>j\<close> from \<open>j.init(g, _isig)\<close>, and the outcome of the rejection
  test.  \<open>xn0\<close> is a \<open>long long\<close>; \<open>i0\<close> is an \<open>int\<close>, set by \<open>int(iceil(xn0, _d))\<close>.
\<close>

definition candidate ::
  "'g digit_gen \<Rightarrow> discrete_normal_dist \<Rightarrow> 'g \<Rightarrow> int
     \<Rightarrow> (int \<times> int \<times> int \<times> bool \<times> i_rand \<times> 'g) option" where
  "candidate D S g k =
     Option.bind (init D g 2) (\<lambda>(j1, g1).
     Option.bind (i_call D j1 g1) (\<lambda>(t, j2, g2).
       let s = (if t \<noteq> 0 then - 1 else 1);
           xn = dn_sig S * k + s * dn_mu S;
           i0 = to_int (iceil xn (dn_d S));
           xn0 = i0 * dn_d S - xn
       in
       Option.bind (init D g2 (dn_isig S)) (\<lambda>(j3, g3).
       Option.bind (reject_test D S j3 g3 k s xn0) (\<lambda>(rej, j4, g4).
         Some (s, i0, xn0, rej, j4, g4)))))"

text \<open>The loop of \<open>generate(g, j)\<close>; \<open>continue\<close> is the recursive call.\<close>

partial_function (option) dn_generate ::
  "'g digit_gen \<Rightarrow> discrete_normal_dist \<Rightarrow> 'g \<Rightarrow> (discrete_normal_dist \<times> i_rand \<times> 'g) option" where
  "dn_generate D S g =
     Option.bind (G D S g) (\<lambda>(k, S1, g1).
     Option.bind (P D S1 g1 (k * (k - 1))) (\<lambda>(ok, S2, g2).
       if \<not> ok then dn_generate D S2 g2
       else
         Option.bind (candidate D S2 g2 k) (\<lambda>(s, i0, xn0, rej, j, g3).
           if rej then dn_generate D S2 g3
           else
             Option.bind (B_repeat D S2 j g3 k xn0 (k + 1)) (\<lambda>(h, S3, j', g4).
               if \<not> (h < 0) then dn_generate D S3 g4
               else
                 (let j1 = add (i0 + s * dn_imu S3) j';
                      j2 = (if s < 0 then negate j1 else j1)
                  in Some (S3, j2, g4))))))"

declare dn_generate.simps [code]





subsection \<open>The stream operators of \<open>param_type\<close>\<close>

text \<open>
  An output stream is the string written to it; an input stream is the string still to
  be read, and \<open>None\<close> once an extraction has failed.  The inserter \<open>os << int\<close> and the
  extractor \<open>is >> int\<close> belong to the C++ standard library: they are the parameters
  \<open>put_int\<close> (the characters written for an \<open>int\<close>) and \<open>get_int\<close> (the \<open>int\<close> read and the rest
  of the input, or \<open>None\<close> for a failure) of the model.  When an extraction fails,
  \<open>operator>>\<close> leaves \<open>x\<close> as it is.
\<close>

definition param_insert :: "(int \<Rightarrow> string) \<Rightarrow> string \<Rightarrow> param_type \<Rightarrow> string" where
  "param_insert put_int os x =
     os @ put_int (pt_mu_num x) @ [CHR '' ''] @ put_int (pt_mu_den x) @ [CHR '' '']
        @ put_int (pt_sigma_num x) @ [CHR '' ''] @ put_int (pt_sigma_den x)"

definition param_extract ::
  "(string \<Rightarrow> (int \<times> string) option) \<Rightarrow> string \<Rightarrow> param_type
     \<Rightarrow> runtime_error + param_type \<times> string option" where
  "param_extract get_int is x =
     (case Option.bind (get_int is) (\<lambda>(mu_num, s1).
           Option.bind (get_int s1) (\<lambda>(mu_den, s2).
           Option.bind (get_int s2) (\<lambda>(sigma_num, s3).
           Option.bind (get_int s3) (\<lambda>(sigma_den, s4).
             Some (mu_num, mu_den, sigma_num, sigma_den, s4))))) of
        None \<Rightarrow> Inr (x, None)
      | Some (mu_num, mu_den, sigma_num, sigma_den, s4) \<Rightarrow>
          (case param_init mu_num mu_den sigma_num sigma_den of
             Inl e \<Rightarrow> Inl e
           | Inr p \<Rightarrow> Inr (p, Some s4)))"

text \<open>
  An example for the two parameters: decimal output as of a stream with the flags \<open>dec\<close>
  and the width 0, and decimal input with the flags \<open>dec | skipws\<close>, in the classic
  locale: white space is skipped, then a sign and the digits are read, and a value
  that is not an \<open>int\<close> is a failure.
\<close>

definition digit_char :: "nat \<Rightarrow> char" where
  "digit_char n = char_of (48 + n)"

definition is_digit :: "char \<Rightarrow> bool" where
  "is_digit c = (48 \<le> (of_char c :: nat) \<and> (of_char c :: nat) \<le> 57)"

definition digit_val :: "char \<Rightarrow> nat" where
  "digit_val c = of_char c - 48"

definition is_space :: "char \<Rightarrow> bool" where
  "is_space c = (c = CHR '' '' \<or> (9 \<le> (of_char c :: nat) \<and> (of_char c :: nat) \<le> 13))"

function dec_digits :: "nat \<Rightarrow> string" where
  "dec_digits n =
     (if n < 10 then [digit_char n] else dec_digits (n div 10) @ [digit_char (n mod 10)])"
  by pat_completeness auto
termination
  by (relation "measure id") auto

declare dec_digits.simps [simp del]

definition dec_put_int :: "int \<Rightarrow> string" where
  "dec_put_int i = (if i < 0 then CHR ''-'' # dec_digits (nat (- i)) else dec_digits (nat i))"

definition dec_value :: "string \<Rightarrow> nat" where
  "dec_value = foldl (\<lambda>v c. 10 * v + digit_val c) 0"

definition dec_get_int :: "string \<Rightarrow> (int \<times> string) option" where
  "dec_get_int s =
     (let s1 = dropWhile is_space s;
          neg = (s1 \<noteq> [] \<and> hd s1 = CHR ''-'');
          s2 = (if s1 \<noteq> [] \<and> (hd s1 = CHR ''-'' \<or> hd s1 = CHR ''+'') then tl s1 else s1);
          ds = takeWhile is_digit s2;
          v = (if neg then - int (dec_value ds) else int (dec_value ds))
      in if ds = [] \<or> v < int_min \<or> maxint < v then None
         else Some (v, dropWhile is_digit s2))"
section \<open>Lemmas on C++ division\<close>

lemma cdiv_nonneg: "0 \<le> x \<Longrightarrow> 0 \<le> y \<Longrightarrow> cdiv x y = x div y"
  by (cases "x = 0"; cases "y = 0") (simp_all add: cdiv_def)

lemma le_div_iff: "0 < y \<Longrightarrow> (x \<le> M div y) = (x * y \<le> (M::int))"
proof
  assume y: "0 < y" and "x \<le> M div y"
  then have "x * y \<le> (M div y) * y" by simp
  also have "\<dots> \<le> M"
    using y by (simp add: mult.commute [of _ y] pos_mod_sign minus_mod_eq_mult_div [symmetric])
  finally show "x * y \<le> M" .
next
  assume y: "0 < y" and le: "x * y \<le> M"
  from le y have "(x * y) div y \<le> M div y" by (rule zdiv_mono1)
  with y show "x \<le> M div y" by simp
qed

section \<open>Lemmas on the conversion to int\<close>

lemma to_int_id: "in_int x \<Longrightarrow> to_int x = x"
proof (cases "0 \<le> x")
  case True
  assume "in_int x"
  with True have "x mod 2 ^ 32 = x"
    by (simp add: in_int_def maxint_def)
  moreover from \<open>in_int x\<close> have "x < 2 ^ 31"
    by (simp add: in_int_def maxint_def)
  ultimately show ?thesis
    by (simp add: to_int_def)
next
  case False
  assume "in_int x"
  with False have r: "0 \<le> x + 2 ^ 32" "x + 2 ^ 32 < 2 ^ 32" "\<not> x + 2 ^ 32 < 2 ^ 31"
    by (simp_all add: in_int_def int_min_def)
  have "x mod 2 ^ 32 = (x + 2 ^ 32) mod 2 ^ 32"
    by simp
  also have "\<dots> = x + 2 ^ 32"
    using r(1,2) by (rule mod_pos_pos_trivial)
  finally have "x mod 2 ^ 32 = x + 2 ^ 32" .
  with r(3) show ?thesis
    by (simp add: to_int_def)
qed

lemma i_b_base: "int (dg_base D) \<le> maxint \<Longrightarrow> i_b D = int (dg_base D)"
  unfolding i_b_def by (rule to_int_id) (simp add: in_int_def int_min_def)

section \<open>i_rand: init with a non-positive bound\<close>

lemma init_inner_one: "init_inner b 1 1 0 1 0 = Some (Return 0 1 0)"
  by (subst init_inner.simps) (simp add: cdiv_def)

lemma init_one: "init D g 1 = Some (i_rand0, g)"
  unfolding init_def
  by (subst init_outer.simps) (simp add: init_inner_one i_rand0_def)

text \<open>
  C9.  \<open>init(g, m)\<close> with \<open>m \<le> 0\<close> is \<open>init(g, 1)\<close>: it returns, the engine and the
  digit generator are in the state they were in (no digit was drawn), and the i-rand
  is fixed at 0: \<open>min() = max() = 0\<close> and \<open>entropy() = 0\<close>.
\<close>

theorem init_nonpositive:
  assumes "m \<le> 0"
  shows "init D g m = init D g 1
       \<and> (\<exists>r. init D g m = Some (r, g) \<and> i_min r = 0 \<and> i_max r = 0 \<and> entropy r = 0)"
proof -
  have "init D g m = init D g 1"
    using assms by (simp add: init_def)
  then show ?thesis
    by (simp add: init_one i_rand0_def i_min_def i_max_def entropy_def)
qed

theorem init_nonpositive_witness:
  "(-3::int) \<le> 0
   \<and> init (cyclic_gen 2 [0, 1]) 0 (-3) = init (cyclic_gen 2 [0, 1]) 0 1
   \<and> (\<exists>r. init (cyclic_gen 2 [0, 1]) 0 (-3) = Some (r, 0)
          \<and> i_min r = 0 \<and> i_max r = 0 \<and> entropy r = 0)"
  using init_nonpositive [of "-3" "cyclic_gen 2 [0, 1]" 0] by fastforce

section \<open>i_rand: the invariant\<close>









section \<open>i_rand: ranges\<close>











section \<open>i_rand: the fields stay representable\<close>









text \<open>
  C10.  Where \<open>negate()\<close> and \<open>add(c)\<close> compute without overflow and leave a range that
  \<open>min()\<close> and \<open>max()\<close> can read (\<open>-max\<close>, \<open>-min\<close>, \<open>min + c\<close> and \<open>max + c\<close> are \<open>int\<close>s),
  \<open>negate()\<close> maps the range \<open>[min, max]\<close> to \<open>[-max, -min]\<close> and \<open>add(c)\<close> maps it to
  \<open>[min + c, max + c]\<close>.  Neither takes the engine or the digit generator, so no digit
  is drawn; \<open>_d\<close> and \<open>_l\<close> are unchanged, and so is the truth of \<open>_d = b^_l\<close>.
\<close>

theorem negate_add_range:
  assumes "negate_ok r" and "i_rep (negate r)" and "add_ok c r" and "i_rep (add c r)"
  shows "i_min (negate r) = - i_max r \<and> i_max (negate r) = - i_min r
   \<and> i_d (negate r) = i_d r \<and> entropy (negate r) = entropy r
   \<and> i_min (add c r) = i_min r + c \<and> i_max (add c r) = i_max r + c
   \<and> i_d (add c r) = i_d r \<and> entropy (add c r) = entropy r
   \<and> i_inv b (negate r) = i_inv b r \<and> i_inv b (add c r) = i_inv b r
   \<and> in_int (- i_max r) \<and> in_int (- i_min r) \<and> in_int (i_min r + c) \<and> in_int (i_max r + c)"
proof -
  have m: "i_min (negate r) = - i_max r" "i_max (negate r) = - i_min r"
      "i_min (add c r) = i_min r + c" "i_max (add c r) = i_max r + c"
    by (simp_all add: negate_def add_def i_min_def i_max_def)
  from assms(2,4) have "in_int (i_min (negate r))" "in_int (i_max (negate r))"
      "in_int (i_min (add c r))" "in_int (i_max (add c r))"
    by (simp_all add: i_rep_def i_min_def i_max_def)
  then have "in_int (- i_max r)" "in_int (- i_min r)" "in_int (i_min r + c)" "in_int (i_max r + c)"
    unfolding m by simp_all
  then show ?thesis
    by (simp add: negate_def add_def i_min_def i_max_def entropy_def i_inv_def)
qed

text \<open>The range \<open>[1, 8]\<close> with three digits to go, in base 2: negated, and moved by 5.\<close>

theorem negate_add_range_witness:
  "negate_ok \<lparr>i_a = 1, i_d = 8, i_l = 3\<rparr> \<and> add_ok 5 \<lparr>i_a = 1, i_d = 8, i_l = 3\<rparr>
   \<and> negate \<lparr>i_a = 1, i_d = 8, i_l = 3\<rparr> = \<lparr>i_a = - 8, i_d = 8, i_l = 3\<rparr>
   \<and> add 5 \<lparr>i_a = 1, i_d = 8, i_l = 3\<rparr> = \<lparr>i_a = 6, i_d = 8, i_l = 3\<rparr>
   \<and> i_rep \<lparr>i_a = - 8, i_d = 8, i_l = 3\<rparr> \<and> i_rep \<lparr>i_a = 6, i_d = 8, i_l = 3\<rparr>
   \<and> i_min \<lparr>i_a = - 8, i_d = 8, i_l = 3\<rparr> = - i_max \<lparr>i_a = 1, i_d = 8, i_l = 3\<rparr>
   \<and> i_max \<lparr>i_a = - 8, i_d = 8, i_l = 3\<rparr> = - i_min \<lparr>i_a = 1, i_d = 8, i_l = 3\<rparr>
   \<and> i_min \<lparr>i_a = 6, i_d = 8, i_l = 3\<rparr> = i_min \<lparr>i_a = 1, i_d = 8, i_l = 3\<rparr> + 5
   \<and> i_max \<lparr>i_a = 6, i_d = 8, i_l = 3\<rparr> = i_max \<lparr>i_a = 1, i_d = 8, i_l = 3\<rparr> + 5
   \<and> i_inv 2 \<lparr>i_a = - 8, i_d = 8, i_l = 3\<rparr> = i_inv 2 \<lparr>i_a = 1, i_d = 8, i_l = 3\<rparr>
   \<and> i_inv 2 \<lparr>i_a = 6, i_d = 8, i_l = 3\<rparr> = i_inv 2 \<lparr>i_a = 1, i_d = 8, i_l = 3\<rparr>"
proof -
  let ?r = "\<lparr>i_a = 1, i_d = 8, i_l = 3\<rparr>"
  have n: "negate ?r = \<lparr>i_a = - 8, i_d = 8, i_l = 3\<rparr>"
    by (simp add: negate_def i_max_def)
  have a: "add 5 ?r = \<lparr>i_a = 6, i_d = 8, i_l = 3\<rparr>"
    by (simp add: add_def)
  have r: "i_rep ?r" "i_rep \<lparr>i_a = - 8, i_d = 8, i_l = 3\<rparr>" "i_rep \<lparr>i_a = 6, i_d = 8, i_l = 3\<rparr>"
    by (simp_all add: i_rep_def in_int_def int_min_def maxint_def)
  have no: "negate_ok ?r"
    using r(1) by (simp add: negate_ok_def i_max_def in_int_def int_min_def maxint_def)
  have ao: "add_ok 5 ?r"
    using r(1) by (simp add: add_ok_def in_int_def int_min_def maxint_def)
  have rn: "i_rep (negate ?r)" unfolding n by (rule r(2))
  have ra: "i_rep (add 5 ?r)" unfolding a by (rule r(3))
  note t = negate_add_range [OF no rn ao ra, of 2, unfolded n a]
  from t have
    "i_min \<lparr>i_a = - 8, i_d = 8, i_l = 3\<rparr> = - i_max ?r"
    "i_max \<lparr>i_a = - 8, i_d = 8, i_l = 3\<rparr> = - i_min ?r"
    "i_min \<lparr>i_a = 6, i_d = 8, i_l = 3\<rparr> = i_min ?r + 5"
    "i_max \<lparr>i_a = 6, i_d = 8, i_l = 3\<rparr> = i_max ?r + 5"
    "i_inv 2 \<lparr>i_a = - 8, i_d = 8, i_l = 3\<rparr> = i_inv 2 ?r"
    "i_inv 2 \<lparr>i_a = 6, i_d = 8, i_l = 3\<rparr> = i_inv 2 ?r"
    by blast+
  with no ao n a r(2,3) show ?thesis
    by (intro conjI)
qed



section \<open>u_rand: truncatep\<close>

lemma truncatep_cases:
  assumes "digit D u g k = (d, u', g')"
  shows "truncatep D u g k =
           (if d \<le> (bm1 D - 1) div 2 then Some (True, u', g')
            else if d > bm1 D div 2 then Some (False, u', g')
            else truncatep D u' g' (k + 1))"
  by (subst truncatep.simps) (simp add: assms)

text \<open>
  C2, as the code has it.  With \<open>b = bm1 + 1\<close> and \<open>d\<close> the digit \<open>d_k\<close> that \<open>digit(g, k)\<close>
  returns: \<open>truncatep(g, k)\<close> returns \<open>true\<close> if \<open>d \<le> \<lfloor>(b - 2)/2\<rfloor>\<close> and \<open>false\<close> if
  \<open>d > \<lfloor>(b - 1)/2\<rfloor>\<close>; otherwise it goes on with the digit \<open>k + 1\<close>, and that case only
  arises when \<open>b\<close> is odd and \<open>d\<close> is the middle digit \<open>(b - 1)/2\<close>.  For an even base the
  result is decided by the digit \<open>k\<close> alone.
\<close>

theorem truncatep_digit:
  assumes "1 \<le> bm1 D" and "digit D u g k = (d, u', g')"
  shows "(d \<le> (bm1 D + 1 - 2) div 2 \<longrightarrow> truncatep D u g k = Some (True, u', g'))
       \<and> (d > (bm1 D + 1 - 1) div 2 \<longrightarrow> truncatep D u g k = Some (False, u', g'))
       \<and> (\<not> d \<le> (bm1 D + 1 - 2) div 2 \<and> \<not> d > (bm1 D + 1 - 1) div 2 \<longrightarrow>
            truncatep D u g k = truncatep D u' g' (k + 1)
            \<and> odd (bm1 D + 1) \<and> 2 * d + 1 = bm1 D + 1)
       \<and> (even (bm1 D + 1) \<longrightarrow> truncatep D u g k = Some (d \<le> bm1 D div 2, u', g'))"
proof -
  have e: "bm1 D + 1 - 2 = bm1 D - 1" "bm1 D + 1 - 1 = bm1 D" by simp_all
  have tie: "\<not> d \<le> (bm1 D - 1) div 2 \<Longrightarrow> \<not> d > bm1 D div 2 \<Longrightarrow> odd (bm1 D + 1) \<and> 2 * d + 1 = bm1 D + 1"
    using assms(1) by presburger
  have ev: "even (bm1 D + 1) \<Longrightarrow> (bm1 D - 1) div 2 = bm1 D div 2"
    using assms(1) by presburger
  show ?thesis
    unfolding e truncatep_cases [OF assms(2)] using tie ev by auto
qed


text \<open>
  For base 3 the digits 0, 2 and 1 show the three cases: \<open>true\<close>, \<open>false\<close>, and the
  middle digit after which the next digit is looked at.
\<close>

theorem truncatep_digit_witness:
  "1 \<le> bm1 (cyclic_gen 3 [0, 1, 2])
   \<and> digit (cyclic_gen 3 [0, 1, 2]) u_init 0 0 = (0, \<lparr>u_s = 1, u_n = 0, u_d = [0]\<rparr>, 1)
   \<and> truncatep (cyclic_gen 3 [0, 1, 2]) u_init 0 0 = Some (True, \<lparr>u_s = 1, u_n = 0, u_d = [0]\<rparr>, 1)
   \<and> digit (cyclic_gen 3 [0, 1, 2]) u_init 2 0 = (2, \<lparr>u_s = 1, u_n = 0, u_d = [2]\<rparr>, 3)
   \<and> truncatep (cyclic_gen 3 [0, 1, 2]) u_init 2 0 = Some (False, \<lparr>u_s = 1, u_n = 0, u_d = [2]\<rparr>, 3)
   \<and> digit (cyclic_gen 3 [0, 1, 2]) u_init 1 0 = (1, \<lparr>u_s = 1, u_n = 0, u_d = [1]\<rparr>, 2)
   \<and> truncatep (cyclic_gen 3 [0, 1, 2]) u_init 1 0
       = truncatep (cyclic_gen 3 [0, 1, 2]) \<lparr>u_s = 1, u_n = 0, u_d = [1]\<rparr> 2 1
   \<and> digit (cyclic_gen 2 [1, 0]) u_init 0 0 = (1, \<lparr>u_s = 1, u_n = 0, u_d = [1]\<rparr>, 1)
   \<and> even (bm1 (cyclic_gen 2 [1, 0]) + 1)
   \<and> truncatep (cyclic_gen 2 [1, 0]) u_init 0 0 = Some (False, \<lparr>u_s = 1, u_n = 0, u_d = [1]\<rparr>, 1)"
proof -
  have b: "1 \<le> bm1 (cyclic_gen 3 [0, 1, 2])" "bm1 (cyclic_gen 3 [0, 1, 2]) = 2"
    "1 \<le> bm1 (cyclic_gen 2 [1, 0])" "bm1 (cyclic_gen 2 [1, 0]) = 1"
    by (simp_all add: bm1_def cyclic_gen_def)
  have d0: "digit (cyclic_gen 3 [0, 1, 2]) u_init 0 0 = (0, \<lparr>u_s = 1, u_n = 0, u_d = [0]\<rparr>, 1)"
    by code_simp
  have d2: "digit (cyclic_gen 3 [0, 1, 2]) u_init 2 0 = (2, \<lparr>u_s = 1, u_n = 0, u_d = [2]\<rparr>, 3)"
    by code_simp
  have d1: "digit (cyclic_gen 3 [0, 1, 2]) u_init 1 0 = (1, \<lparr>u_s = 1, u_n = 0, u_d = [1]\<rparr>, 2)"
    by code_simp
  have e1: "digit (cyclic_gen 2 [1, 0]) u_init 0 0 = (1, \<lparr>u_s = 1, u_n = 0, u_d = [1]\<rparr>, 1)"
    by code_simp
  from truncatep_digit [OF b(1) d0, unfolded b(2)] have
    "truncatep (cyclic_gen 3 [0, 1, 2]) u_init 0 0 = Some (True, \<lparr>u_s = 1, u_n = 0, u_d = [0]\<rparr>, 1)"
    by simp
  moreover from truncatep_digit [OF b(1) d2, unfolded b(2)] have
    "truncatep (cyclic_gen 3 [0, 1, 2]) u_init 2 0 = Some (False, \<lparr>u_s = 1, u_n = 0, u_d = [2]\<rparr>, 3)"
    by simp
  moreover from truncatep_digit [OF b(1) d1, unfolded b(2)] have
    "truncatep (cyclic_gen 3 [0, 1, 2]) u_init 1 0
       = truncatep (cyclic_gen 3 [0, 1, 2]) \<lparr>u_s = 1, u_n = 0, u_d = [1]\<rparr> 2 1"
    by simp
  moreover from truncatep_digit [OF b(3) e1, unfolded b(4)] have
    "truncatep (cyclic_gen 2 [1, 0]) u_init 0 0 = Some (False, \<lparr>u_s = 1, u_n = 0, u_d = [1]\<rparr>, 1)"
    by simp
  moreover have "even (bm1 (cyclic_gen 2 [1, 0]) + 1)"
    unfolding b(4) by simp
  ultimately show ?thesis
    using b(1) d0 d1 d2 e1 by simp
qed

text \<open>
  The claim as the specification words it (the tie only for an even base and
  \<open>d_k = b/2\<close>) fails both ways.  For the odd base 3 and \<open>d_0 = 1\<close>, \<open>truncatep(g, 0)\<close>
  goes on to draw and test \<open>d_1 = 2\<close>; for the even base 2 and \<open>d_0 = 1 = b/2\<close> it returns
  \<open>false\<close> with that one digit drawn.
\<close>

theorem truncatep_tie_counterexample:
  "odd (bm1 (cyclic_gen 3 [0, 1, 2]) + 1)
   \<and> truncatep (cyclic_gen 3 [0, 1, 2]) u_init 1 0
       = Some (False, \<lparr>u_s = 1, u_n = 0, u_d = [1, 2]\<rparr>, 3)
   \<and> even (bm1 (cyclic_gen 2 [1, 0]) + 1)
   \<and> truncatep (cyclic_gen 2 [1, 0]) u_init 0 0
       = Some (False, \<lparr>u_s = 1, u_n = 0, u_d = [1]\<rparr>, 1)"
proof -
  have "truncatep (cyclic_gen 3 [0, 1, 2]) u_init 1 0
       = Some (False, \<lparr>u_s = 1, u_n = 0, u_d = [1, 2]\<rparr>, 3)"
    by code_simp
  moreover have "truncatep (cyclic_gen 2 [1, 0]) u_init 0 0
       = Some (False, \<lparr>u_s = 1, u_n = 0, u_d = [1]\<rparr>, 1)"
    by code_simp
  ultimately show ?thesis
    by (simp add: bm1_def cyclic_gen_def)
qed

section \<open>u_rand: digits are only appended\<close>

lemma extends_refl: "extends u u"
  by (simp add: extends_def ndigits_def)

lemma extends_trans: "extends u u' \<Longrightarrow> extends u' u'' \<Longrightarrow> extends u u''"
  unfolding extends_def ndigits_def
  by (metis (no_types, lifting) le_trans min.absorb1 take_take)

lemma digit_fill_extends: "extends u (fst (digit_fill D u g k))"
proof (induction D u g k rule: digit_fill.induct)
  case (1 D u g k)
  show ?case
  proof (cases "ndigits u \<le> k")
    case True
    obtain x g' where d: "dg_draw D g = (x, g')" by (cases "dg_draw D g")
    have "extends u (u\<lparr>u_d := u_d u @ [x]\<rparr>)"
      by (simp add: extends_def ndigits_def)
    moreover from 1 [OF True d [symmetric]] have
      "extends (u\<lparr>u_d := u_d u @ [x]\<rparr>) (fst (digit_fill D (u\<lparr>u_d := u_d u @ [x]\<rparr>) g' k))"
      by simp
    ultimately show ?thesis
      using True d by (subst digit_fill.simps) (auto intro: extends_trans)
  next
    case False
    then show ?thesis by (simp add: extends_refl)
  qed
qed

lemma digit_fill_length: "k < ndigits (fst (digit_fill D u g k))"
proof (induction D u g k rule: digit_fill.induct)
  case (1 D u g k)
  show ?case
  proof (cases "ndigits u \<le> k")
    case True
    obtain x g' where d: "dg_draw D g = (x, g')" by (cases "dg_draw D g")
    from 1 [OF True d [symmetric]] True d show ?thesis
      by (subst digit_fill.simps) simp
  next
    case False
    then show ?thesis by simp
  qed
qed

lemma digit_extends: "digit D u g k = (d, u', g') \<Longrightarrow> extends u u' \<and> k < ndigits u' \<and> d = u_d u' ! k"
  using digit_fill_extends [of u D g k] digit_fill_length [of k D u g]
  by (auto simp: digit_def split: prod.splits)

lemma less_than_digits_extends:
  assumes "less_than_digits D u t g k = Some y"
  shows "extends u (fst (snd y)) \<and> extends t (fst (snd (snd y)))"
proof (rule less_than_digits.raw_induct [where P = "\<lambda>D u t g k y. extends u (fst (snd y)) \<and> extends t (fst (snd (snd y)))", OF _ assms], goal_cases)
  case (1 f D u t g k y)
  obtain a u' g' where a: "digit D u g k = (a, u', g')" by (cases "digit D u g k")
  obtain b t' g'' where b: "digit D t g' k = (b, t', g'')" by (cases "digit D t g' k")
  show ?case
  proof (cases "a = b")
    case True
    with 1(2) a b have "f D u' t' g'' (k + 1) = Some y" by simp
    from 1(1) [OF this] digit_extends [OF a] digit_extends [OF b] show ?thesis
      by (blast intro: extends_trans)
  next
    case False
    with 1(2) a b digit_extends [OF a] digit_extends [OF b] show ?thesis
      by auto
  qed
qed

lemma less_than_extends:
  assumes "less_than D u t g = Some (r, u', t', g')"
  shows "extends u u' \<and> extends t t'"
  using assms less_than_digits_extends [of D u t g 0 "(r, u', t', g')"]
  by (auto simp: less_than_def extends_refl split: if_splits)

section \<open>unit_exponential_dist: the loop of generate\<close>

lemma generate_loop_sound:
  assumes "generate_loop D bo S x g k0 = Some y"
  shows "\<exists>n Sa xa ga. fst y = k0 + int n
           \<and> F_fails D bo n S x g = Some (Sa, xa, ga)
           \<and> F D bo Sa xa ga = Some (True, snd y)"
proof (rule generate_loop.raw_induct [where P = "\<lambda>D bo S x g k0 y.
         \<exists>n Sa xa ga. fst y = k0 + int n
           \<and> F_fails D bo n S x g = Some (Sa, xa, ga)
           \<and> F D bo Sa xa ga = Some (True, snd y)", OF _ assms], goal_cases)
  case (1 f D bo S x g k0 y)
  from 1(2) obtain ok S' x' g' where F: "F D bo S x g = Some (ok, S', x', g')"
    by (auto simp: bind_eq_Some_conv)
  show ?case
  proof (cases ok)
    case True
    with 1(2) F have "y = (k0, S', x', g')" by simp
    with True F have "fst y = k0 + int 0
           \<and> F_fails D bo 0 S x g = Some (S, x, g)
           \<and> F D bo S x g = Some (True, snd y)" by simp
    then show ?thesis by blast
  next
    case False
    with 1(2) F have "f D bo S' x' g' (k0 + 1) = Some y" by simp
    from 1(1) [OF this] obtain n Sa xa ga where n: "fst y = k0 + 1 + int n"
        "F_fails D bo n S' x' g' = Some (Sa, xa, ga)"
        "F D bo Sa xa ga = Some (True, snd y)"
      by blast
    with False F have "fst y = k0 + int (Suc n)
           \<and> F_fails D bo (Suc n) S x g = Some (Sa, xa, ga)
           \<and> F D bo Sa xa ga = Some (True, snd y)" by simp
    then show ?thesis by blast
  qed
qed

lemma generate_loop_complete:
  "F_fails D bo n S x g = Some (Sa, xa, ga) \<Longrightarrow>
   F D bo Sa xa ga = Some (True, z) \<Longrightarrow>
   generate_loop D bo S x g k0 = Some (k0 + int n, z)"
proof (induction n arbitrary: S x g k0)
  case 0
  then show ?case
    by (subst generate_loop.simps) (auto split: prod.splits)
next
  case (Suc n)
  from Suc.prems(1) obtain S' x' g' where
      F: "F D bo S x g = Some (False, S', x', g')"
      and r: "F_fails D bo n S' x' g' = Some (Sa, xa, ga)"
    by (auto simp: bind_eq_Some_conv split: if_splits)
  from Suc.IH [OF r Suc.prems(2), of "k0 + 1"] F show ?case
    by (subst generate_loop.simps) (simp add: add.assoc)
qed

section \<open>unit_exponential_dist: F on the bit-optimised path\<close>

lemma less_than_half_even_base:
  assumes "odd (bm1 D)" and "digit D u_init g 0 = (d, u', g')"
  shows "less_than_half D u_init g = Some (d \<le> (bm1 D - 1) div 2, u', g')"
proof -
  from assms(1) have e: "(bm1 D - 1) div 2 = bm1 D div 2" by presburger
  have "less_than_half D u_init g = truncatep D u_init g 0"
    by (simp add: less_than_half_def) (simp add: u_init_def)
  with e show ?thesis
    by (auto simp: truncatep_cases [OF assms(2)])
qed

lemma F_accept_half:
  assumes "F D True S p g = Some (True, S', p', g')" and "odd (bm1 D)"
  shows "u_d p' \<noteq> [] \<and> rawdigit p' 0 \<le> (bm1 D - 1) div 2 \<and> u_s p' = 1 \<and> u_n p' = 0"
proof -
  obtain d u1 g1 where d: "digit D u_init g 0 = (d, u1, g1)" by (cases "digit D u_init g 0")
  note h = less_than_half_even_base [OF assms(2) d]
  from digit_extends [OF d] have u1: "extends u_init u1" "0 < ndigits u1" "d = u_d u1 ! 0"
    by simp_all
  from assms(1) h have dle: "d \<le> (bm1 D - 1) div 2"
    by (auto simp: F_def split: if_splits)
  with assms(1) h obtain lt w1 g2 where lt: "less_than D u_init u1 g1 = Some (lt, w1, p', g2)"
    by (auto simp: F_def bind_eq_Some_conv split: if_splits)
  from less_than_extends [OF lt] have p: "extends u1 p'" by simp
  from u1 p have "u_s p' = 1 \<and> u_n p' = 0"
    by (simp add: extends_def u_init_def)
  moreover from u1 p have "u_d p' \<noteq> []"
    by (auto simp: extends_def ndigits_def)
  moreover from u1 p have "u_d p' ! 0 = d"
    unfolding extends_def ndigits_def by (metis nth_take)
  ultimately show ?thesis
    using dle by (simp add: rawdigit_def)
qed

lemma F_bailout:
  assumes "less_than_half D u_init g = Some (False, p1, g1)"
  shows "F D True S p g = Some (False, S, p1, g1)"
  using assms by (simp add: F_def)

lemma generate_result:
  assumes gl: "generate_loop D bo S x g 0 = Some (int n, S', p, g')"
    and F: "F D bo Sa xa ga = Some (True, S', p, g')"
    and odd: "bo \<longrightarrow> odd (bm1 D)"
  shows "generate D bo S x g =
           Some (S',
                 (if bo then
                    p\<lparr>u_n := n div 2,
                      u_d := (u_d p)[0 := rawdigit p 0 + (if odd n then (bm1 D + 1) div 2 else 0)]\<rparr>
                  else p\<lparr>u_n := n\<rparr>),
                 g')
       \<and> (bo \<longrightarrow> u_d p \<noteq> [] \<and> 2 * rawdigit p 0 < bm1 D + 1)"
proof -
  have g: "generate D bo S x g =
      Some (S', set_integer (nat (if bo then cdiv (int n) 2 else int n))
                 (if bo \<and> crem (int n) 2 \<noteq> 0
                  then p\<lparr>u_d := (u_d p)[0 := rawdigit p 0 + ((bm1 D - 1) div 2 + 1)]\<rparr>
                  else p), g')"
    by (simp add: generate_def gl Let_def)
  have "cdiv (int n) 2 = int n div 2"
    by (simp add: cdiv_nonneg)
  then have kd1: "nat (cdiv (int n) 2) = n div 2"
    by (simp add: nat_div_distrib)
  have "crem (int n) 2 = int n mod 2"
    by (cases "n = 0") (simp_all add: crem_def)
  then have kd2: "crem (int n) 2 \<noteq> 0 \<longleftrightarrow> odd n"
    by presburger
  note kd = kd1 kd2
  show ?thesis
  proof (cases bo)
    case True
    with odd have o: "odd (bm1 D)" by simp
    then have h: "\<And>r. r + ((bm1 D - 1) div 2 + 1) = r + (bm1 D + 1) div 2" by presburger
    from F True F_accept_half [OF _ o] have
      p: "u_d p \<noteq> []" "rawdigit p 0 \<le> (bm1 D - 1) div 2" by auto
    from p(2) o have lt: "2 * rawdigit p 0 < bm1 D + 1" by presburger
    have "(u_d p)[0 := rawdigit p 0 + 0] = u_d p"
      by (simp add: rawdigit_def)
    then show ?thesis
      using True p(1) lt unfolding g h set_integer_def
      by (cases "odd n") (simp_all add: kd)
  next
    case False
    then show ?thesis unfolding g by (simp add: set_integer_def)
  qed
qed

lemma generate_sound:
  assumes "generate D bo S x g = Some (S', x2, g')" and "bo \<longrightarrow> odd (bm1 D)"
  shows "\<exists>n Sa xa ga p.
           F_fails D bo n S x g = Some (Sa, xa, ga)
         \<and> F D bo Sa xa ga = Some (True, S', p, g')
         \<and> x2 = (if bo then
                    p\<lparr>u_n := n div 2,
                      u_d := (u_d p)[0 := rawdigit p 0 + (if odd n then (bm1 D + 1) div 2 else 0)]\<rparr>
                  else p\<lparr>u_n := n\<rparr>)"
proof -
  from assms(1) obtain k p where gl: "generate_loop D bo S x g 0 = Some (k, S', p, g')"
    by (auto simp: generate_def bind_eq_Some_conv Let_def)
  from generate_loop_sound [OF gl] obtain n Sa xa ga where
      k: "k = int n" and ff: "F_fails D bo n S x g = Some (Sa, xa, ga)"
      and F: "F D bo Sa xa ga = Some (True, S', p, g')"
    by auto
  from generate_result [OF gl [unfolded k] F assms(2)] assms(1) have
    "x2 = (if bo then
                    p\<lparr>u_n := n div 2,
                      u_d := (u_d p)[0 := rawdigit p 0 + (if odd n then (bm1 D + 1) div 2 else 0)]\<rparr>
                  else p\<lparr>u_n := n\<rparr>)"
    by simp
  with ff F show ?thesis by blast
qed

text \<open>
  C5.  Let \<open>n\<close> calls of \<open>F\<close> in a row return \<open>false\<close> and the next one return \<open>true\<close> with
  the fraction \<open>p\<close> (\<open>n\<close> is the value the counter \<open>k\<close>, an \<open>int\<close>, reaches).  Then
  \<open>generate\<close> returns, and its result is as follows.  With \<open>bit_optimized\<close> (Algorithm E,
  even base): \<open>p\<close> has a first digit below \<open>b/2\<close>, and the result is \<open>p\<close> with \<open>b/2\<close> added
  to the first digit if \<open>n\<close> is odd and with the integer part \<open>n/2\<close>.  Without it
  (Algorithm V) the result is \<open>p\<close> with the integer part \<open>n\<close>.  Moreover, with
  \<open>bit_optimized\<close>, \<open>F\<close> returns \<open>false\<close> without touching \<open>_v\<close> and \<open>_w\<close> as soon as
  \<open>less_than_half\<close> fails, so the rest of \<open>F\<close> only runs on fractions below \<open>1/2\<close>.
\<close>

theorem generate_exponential:
  assumes "F_fails D bo n S x g = Some (Sa, xa, ga)"
    and "F D bo Sa xa ga = Some (True, S', p, g')"
    and "bo \<longrightarrow> odd (bm1 D)"
    and "int n \<le> maxint"
  shows "generate D bo S x g =
           Some (S',
                 (if bo then
                    p\<lparr>u_n := n div 2,
                      u_d := (u_d p)[0 := rawdigit p 0 + (if odd n then (bm1 D + 1) div 2 else 0)]\<rparr>
                  else p\<lparr>u_n := n\<rparr>),
                 g')
       \<and> (bo \<longrightarrow> u_d p \<noteq> [] \<and> 2 * rawdigit p 0 < bm1 D + 1)
       \<and> (\<forall>S0 p0 g0 p1 g1. less_than_half D u_init g0 = Some (False, p1, g1) \<longrightarrow>
                F D True S0 p0 g0 = Some (False, S0, p1, g1))"
proof -
  from generate_loop_complete [OF assms(1,2), of 0]
  have gl: "generate_loop D bo S x g 0 = Some (int n, S', p, g')"
    by simp
  have "\<forall>S0 p0 g0 p1 g1. less_than_half D u_init g0 = Some (False, p1, g1) \<longrightarrow>
                F D True S0 p0 g0 = Some (False, S0, p1, g1)"
    by (simp add: F_bailout)
  with generate_result [OF gl assms(2,3)] show ?thesis
    by (intro conjI) simp_all
qed

text \<open>
  Base 2 on the digits 1, 0, 1: the first \<open>F\<close> bails out on the digit 1, the second
  accepts \<open>p = 0.0...\<close>, and \<open>generate\<close> returns \<open>0.1...\<close> with integer part 0.
\<close>

theorem generate_exponential_witness:
  "F_fails (cyclic_gen 2 [1, 0, 1]) True 1 \<lparr>e_v = u_init, e_w = u_init\<rparr> u_init 0
     = Some (\<lparr>e_v = u_init, e_w = u_init\<rparr>, \<lparr>u_s = 1, u_n = 0, u_d = [1]\<rparr>, 1)
   \<and> F (cyclic_gen 2 [1, 0, 1]) True \<lparr>e_v = u_init, e_w = u_init\<rparr> \<lparr>u_s = 1, u_n = 0, u_d = [1]\<rparr> 1
       = Some (True, \<lparr>e_v = u_init, e_w = \<lparr>u_s = 1, u_n = 0, u_d = [1]\<rparr>\<rparr>,
               \<lparr>u_s = 1, u_n = 0, u_d = [0]\<rparr>, 3)
   \<and> odd (bm1 (cyclic_gen 2 [1, 0, 1])) \<and> int 1 \<le> maxint
   \<and> generate (cyclic_gen 2 [1, 0, 1]) True \<lparr>e_v = u_init, e_w = u_init\<rparr> u_init 0
     = Some (\<lparr>e_v = u_init, e_w = \<lparr>u_s = 1, u_n = 0, u_d = [1]\<rparr>\<rparr>, \<lparr>u_s = 1, u_n = 0, u_d = [1]\<rparr>, 3)
   \<and> 2 * rawdigit \<lparr>u_s = 1, u_n = 0, u_d = [0]\<rparr> 0 < bm1 (cyclic_gen 2 [1, 0, 1]) + 1
   \<and> less_than_half (cyclic_gen 2 [1, 0, 1]) u_init 0
       = Some (False, \<lparr>u_s = 1, u_n = 0, u_d = [1]\<rparr>, 1)
   \<and> F (cyclic_gen 2 [1, 0, 1]) True \<lparr>e_v = u_init, e_w = u_init\<rparr> u_init 0
       = Some (False, \<lparr>e_v = u_init, e_w = u_init\<rparr>, \<lparr>u_s = 1, u_n = 0, u_d = [1]\<rparr>, 1)"
proof -
  let ?D = "cyclic_gen 2 [1, 0, 1]" and ?S = "\<lparr>e_v = u_init, e_w = u_init\<rparr>"
  let ?S' = "\<lparr>e_v = u_init, e_w = \<lparr>u_s = 1, u_n = 0, u_d = [1]\<rparr>\<rparr>"
  let ?p = "\<lparr>u_s = 1, u_n = 0, u_d = [0]\<rparr>"
  have ff: "F_fails ?D True 1 ?S u_init 0 = Some (?S, \<lparr>u_s = 1, u_n = 0, u_d = [1]\<rparr>, 1)"
    by code_simp
  have F: "F ?D True ?S \<lparr>u_s = 1, u_n = 0, u_d = [1]\<rparr> 1 = Some (True, ?S', ?p, 3)"
    by code_simp
  have o: "True \<longrightarrow> odd (bm1 ?D)"
    by (simp add: bm1_def cyclic_gen_def)
  have n: "int 1 \<le> maxint"
    by (simp add: maxint_def)
  have h: "less_than_half ?D u_init 0 = Some (False, \<lparr>u_s = 1, u_n = 0, u_d = [1]\<rparr>, 1)"
    by code_simp
  have e: "?p\<lparr>u_n := 1 div 2,
              u_d := (u_d ?p)[0 := rawdigit ?p 0 + (if odd (1::nat) then (bm1 ?D + 1) div 2 else 0)]\<rparr>
           = \<lparr>u_s = 1, u_n = 0, u_d = [1]\<rparr>"
    by (simp add: rawdigit_def bm1_def cyclic_gen_def)
  note t = generate_exponential [OF ff F o n]
  from t have g: "generate ?D True ?S u_init 0 = Some (?S', \<lparr>u_s = 1, u_n = 0, u_d = [1]\<rparr>, 3)"
    unfolding if_True e by (rule conjunct1)
  from t have d: "2 * rawdigit ?p 0 < bm1 ?D + 1"
    by blast
  from t h have F0: "F ?D True ?S u_init 0 = Some (False, ?S, \<lparr>u_s = 1, u_n = 0, u_d = [1]\<rparr>, 1)"
    by blast
  have o': "odd (bm1 ?D)"
    using o by blast
  from ff F o' n g d h F0 show ?thesis
    by (intro conjI)
qed
section \<open>discrete_normal_dist: the constructor\<close>

lemma gcd_loop_gcd: "0 \<le> u \<Longrightarrow> 0 \<le> v \<Longrightarrow> gcd_loop u v = gcd u v"
proof (induction u v rule: gcd_loop.induct)
  case (1 u v)
  show ?case
  proof (cases "v > 0")
    case True
    with 1(2) have c: "crem u v = u mod v"
      by (cases "u = 0") (simp_all add: crem_def)
    have "gcd_loop u v = gcd_loop v (crem u v)"
      using True by (subst gcd_loop.simps) simp
    also from True 1 c have "\<dots> = gcd v (u mod v)"
      by simp
    also have "\<dots> = gcd u v"
      by (metis gcd.commute gcd_red_int)
    finally show ?thesis .
  next
    case False
    with 1(3) have "v = 0" by simp
    with 1(2) show ?thesis by (subst gcd_loop.simps) simp
  qed
qed

lemma gcd_dn_gcd: "gcd_dn u v = gcd u v"
  by (simp add: gcd_dn_def gcd_loop_gcd)

lemma cdiv_dvd: "0 < y \<Longrightarrow> y dvd x \<Longrightarrow> cdiv x y = x div y"
  by (auto simp: cdiv_def sgn_if dvd_neg_div)

lemma iceil_ceiling:
  assumes "0 < n" "0 < d"
  shows "iceil n d = \<lceil>(of_int n :: rat) / of_int d\<rceil>"
proof -
  have k: "cdiv n d = n div d" using assms by (simp add: cdiv_nonneg)
  have "n = n div d * d + n mod d" by simp
  moreover have "0 \<le> n mod d" using assms by simp
  ultimately have lt: "(n div d * d < n) = (n mod d \<noteq> 0)" by linarith
  have "\<lceil>(of_int n :: rat) / of_int d\<rceil> = - (- n div d)"
    by (rule ceiling_divide_eq_div)
  also have "\<dots> = (if n mod d = 0 then n div d else n div d + 1)"
    using assms by (simp add: zdiv_zminus1_eq_if)
  finally show ?thesis
    by (simp add: iceil_def k lt)
qed

lemma crem_bound: "0 < y \<Longrightarrow> \<bar>x - cdiv x y * y\<bar> < y"
proof -
  assume y: "0 < y"
  show ?thesis
  proof (cases "x < 0")
    case True
    have "- x = y * (- x div y) + (- x) mod y" by simp
    moreover have "0 \<le> (- x) mod y" "(- x) mod y < y" using y by simp_all
    ultimately have "\<bar>x + y * (- x div y)\<bar> < y" by linarith
    with True y show ?thesis by (simp add: cdiv_def sgn_if algebra_simps)
  next
    case False
    have "x = y * (x div y) + x mod y" by simp
    moreover have "0 \<le> x mod y" "x mod y < y" using y by simp_all
    ultimately have "\<bar>x - y * (x div y)\<bar> < y" by linarith
    with False y show ?thesis by (simp add: cdiv_def sgn_if algebra_simps)
  qed
qed

lemma int_div_le: "0 \<le> a \<Longrightarrow> 0 < b \<Longrightarrow> a div b \<le> (a::int)"
  using zdiv_mono2 [of a 1 b] by simp

lemma dvd_div_pos: "0 < (a::int) \<Longrightarrow> 0 < b \<Longrightarrow> b dvd a \<Longrightarrow> 0 < a div b"
  by (simp add: pos_imp_zdiv_pos_iff zdvd_imp_le)

lemma big_div: "0 < r \<Longrightarrow> r \<le> maxint \<Longrightarrow> x \<le> maxint \<Longrightarrow> x \<le> maxll div r"
proof -
  assume r: "0 < r" "r \<le> maxint" and x: "x \<le> maxint"
  have "maxll div maxint \<le> maxll div r"
    using r by (intro zdiv_mono2) (simp_all add: maxll_def)
  moreover have "maxint \<le> maxll div maxint"
    by (simp add: maxll_def maxint_def)
  ultimately show ?thesis using x by linarith
qed

lemma dn_init_reduced:
  assumes "0 < q" "q \<le> maxint" "0 < r" "r \<le> maxint" "0 < s" "s \<le> maxint" "0 < i_b D"
  shows "dn_init D \<lparr>pt_mu_num = p, pt_mu_den = q, pt_sigma_num = r, pt_sigma_den = s\<rparr> =
     (if \<not> (iceil r s \<le> maxll div (s * (q div gcd q s))) then Inl Sigma_or_mu_overflow
      else if \<not> (iceil r s \<le> maxint div kmax) then Inl Possible_overflow_a
      else if \<not> (\<bar>cdiv p q\<bar> \<le> maxint - iceil r s * kmax) then Inl Possible_overflow_b
      else if \<not> (max 2 (r * (q div gcd q s)) \<le> maxll div (i_b D * kmax)) then Inl Possible_overflow_c
      else Inr \<lparr>dn_param = \<lparr>pt_mu_num = p, pt_mu_den = q, pt_sigma_num = r, pt_sigma_den = s\<rparr>,
                dn_sig = r * (q div gcd q s), dn_mu = (p - cdiv p q * q) * (s div gcd q s),
                dn_d = s * (q div gcd q s), dn_imu = cdiv p q,
                dn_isig = iceil r s, dn_y = u_init, dn_z = u_init, dn_j = i_rand0\<rparr>)"
proof -
  let ?L = "gcd q s"
  have L: "0 < ?L" "?L dvd q" "?L dvd s" using assms by simp_all
  have qL: "0 < q div ?L" "q div ?L \<le> maxint"
    using assms L int_div_le [of q ?L] dvd_div_pos [of q ?L] by simp_all
  have sL: "0 < s div ?L" "s div ?L \<le> maxint"
    using assms L int_div_le [of s ?L] dvd_div_pos [of s ?L] by simp_all
  have g: "gcd_dn s q = ?L" by (simp add: gcd_dn_gcd gcd.commute)
  have c1: "cdiv q ?L = q div ?L" "cdiv s ?L = s div ?L"
    using L by (simp_all add: cdiv_dvd)
  have c2: "cdiv maxll r = maxll div r" "cdiv maxll s = maxll div s"
    "cdiv maxll (s div ?L) = maxll div (s div ?L)"
    using assms sL by (simp_all add: cdiv_nonneg maxll_def)
  have g1: "q div ?L \<le> maxll div r" using assms qL by (simp add: big_div)
  have g3: "q div ?L \<le> maxll div s" using assms qL by (simp add: big_div)
  have "\<bar>p - cdiv p q * q\<bar> \<le> maxint" using crem_bound [of q p] assms by linarith
  then have g2: "\<bar>p - cdiv p q * q\<bar> \<le> maxll div (s div ?L)" using sL by (simp add: big_div)
  have d: "0 < s * (q div ?L)" using assms qL by simp
  have c3: "cdiv maxll (s * (q div ?L)) = maxll div (s * (q div ?L))"
    using d by (simp add: cdiv_nonneg maxll_def)
  have c4: "cdiv maxint kmax = maxint div kmax"
    by (simp add: cdiv_nonneg maxint_def kmax_def)
  have c5: "cdiv maxll (i_b D * kmax) = maxll div (i_b D * kmax)"
    using assms(7) by (simp add: cdiv_nonneg maxll_def kmax_def)
  show ?thesis
    unfolding dn_init_def Let_def param_type.simps g c1 c2 c3 c4 c5
    using g1 g2 g3 by simp
qed

lemma param_init_reduced:
  assumes "0 < sigma_num" "0 < sigma_den" "0 < mu_den" "int_min < mu_num"
  shows "param_init mu_num mu_den sigma_num sigma_den =
     Inr \<lparr>pt_mu_num = mu_num div gcd mu_num mu_den, pt_mu_den = mu_den div gcd mu_num mu_den,
          pt_sigma_num = sigma_num div gcd sigma_num sigma_den,
          pt_sigma_den = sigma_den div gcd sigma_num sigma_den\<rparr>"
proof -
  have "0 < gcd mu_num mu_den" "0 < gcd sigma_num sigma_den"
    using assms by simp_all
  then show ?thesis
    using assms by (simp add: param_init_def Let_def gcd_dn_gcd cdiv_dvd)
qed

text \<open>
  C4.  For \<open>int\<close> arguments and a base in \<open>[2, 2^24]\<close>, the constructor from
  \<open>(mu_num, mu_den, sigma_num, sigma_den)\<close> throws if and only if \<open>sigma_num \<le> 0\<close>,
  \<open>sigma_den \<le> 0\<close>, \<open>mu_den \<le> 0\<close>, \<open>mu_num\<close> is the least \<open>int\<close>, or one of the
  overflow guards fails, where the guards say that \<open>_isig _d\<close> and \<open>max(2, _sig) b kmax\<close>
  fit in a signed 64-bit integer and \<open>_isig kmax\<close> and \<open>|_imu| + _isig kmax\<close> fit in a
  signed 32-bit integer.  Otherwise it succeeds, and then in particular
  \<open>max(2, _sig) b kmax \<le> 2^63 - 1\<close> with \<open>kmax = 51\<close>.  The sampling functions
  (\<open>dn_generate\<close> and what it calls) have no error result: the source has no \<open>throw\<close>
  outside the constructors.
\<close>

theorem construct_error_iff:
  assumes "int_min \<le> mu_num" "mu_num \<le> maxint" "int_min \<le> mu_den" "mu_den \<le> maxint"
    and "int_min \<le> sigma_num" "sigma_num \<le> maxint" "int_min \<le> sigma_den" "sigma_den \<le> maxint"
    and "2 \<le> dg_base D" "dg_base D \<le> 2 ^ 24"
  shows "((\<exists>e. dn_construct D mu_num mu_den sigma_num sigma_den = Inl e) \<longleftrightarrow>
            sigma_num \<le> 0 \<or> sigma_den \<le> 0 \<or> mu_den \<le> 0 \<or> mu_num = int_min
            \<or> \<not> overflow_guards D mu_num mu_den sigma_num sigma_den)
       \<and> (\<forall>S. dn_construct D mu_num mu_den sigma_num sigma_den = Inr S \<longrightarrow>
              kmax = 51 \<and> max 2 (dn_sig S) * (i_b D * kmax) \<le> 2 ^ 63 - 1)"
proof (cases "0 < sigma_num \<and> 0 < sigma_den \<and> 0 < mu_den \<and> int_min < mu_num")
  case False
  then have "dn_construct D mu_num mu_den sigma_num sigma_den = Inl Need_sigma_positive"
    by (auto simp: dn_construct_def param_init_def)
  moreover from False assms(1) have
    "sigma_num \<le> 0 \<or> sigma_den \<le> 0 \<or> mu_den \<le> 0 \<or> mu_num = int_min"
    by linarith
  ultimately show ?thesis by auto
next
  case True
  define p where "p = mu_num div gcd mu_num mu_den"
  define q where "q = mu_den div gcd mu_num mu_den"
  define r where "r = sigma_num div gcd sigma_num sigma_den"
  define s where "s = sigma_den div gcd sigma_num sigma_den"
  have g: "0 < gcd mu_num mu_den" "0 < gcd sigma_num sigma_den"
    using True by simp_all
  have q: "0 < q" "q \<le> maxint"
    using True g assms(4) int_div_le [of mu_den "gcd mu_num mu_den"]
      dvd_div_pos [of mu_den "gcd mu_num mu_den"] by (simp_all add: q_def)
  have r: "0 < r" "r \<le> maxint"
    using True g assms(6) int_div_le [of sigma_num "gcd sigma_num sigma_den"]
      dvd_div_pos [of sigma_num "gcd sigma_num sigma_den"] by (simp_all add: r_def)
  have s: "0 < s" "s \<le> maxint"
    using True g assms(8) int_div_le [of sigma_den "gcd sigma_num sigma_den"]
      dvd_div_pos [of sigma_den "gcd sigma_num sigma_den"] by (simp_all add: s_def)
  have ib: "i_b D = int (dg_base D)"
    using assms(10) by (intro i_b_base) (simp add: maxint_def)
  have b: "0 < i_b D" "0 < i_b D * kmax"
    using assms(9) by (simp_all add: ib kmax_def)
  have d: "0 < s * (q div gcd q s)"
    using q s dvd_div_pos [of q "gcd q s"] by simp
  have c: "dn_construct D mu_num mu_den sigma_num sigma_den
        = dn_init D \<lparr>pt_mu_num = p, pt_mu_den = q, pt_sigma_num = r, pt_sigma_den = s\<rparr>"
    using True by (simp add: dn_construct_def param_init_reduced p_def q_def r_def s_def)
  note i = dn_init_reduced [OF q r s b(1), of p]
  have og: "overflow_guards D mu_num mu_den sigma_num sigma_den \<longleftrightarrow>
        iceil r s \<le> maxll div (s * (q div gcd q s)) \<and> iceil r s \<le> maxint div kmax
        \<and> \<bar>cdiv p q\<bar> \<le> maxint - iceil r s * kmax
        \<and> max 2 (r * (q div gcd q s)) \<le> maxll div (i_b D * kmax)"
    unfolding overflow_guards_def Let_def p_def [symmetric] q_def [symmetric]
      r_def [symmetric] s_def [symmetric] iceil_ceiling [OF r(1) s(1), symmetric]
      le_div_iff [OF d] le_div_iff [OF b(2)]
    by (simp add: le_div_iff maxll_def maxint_def kmax_def ib) linarith
  have "(\<exists>e. dn_construct D mu_num mu_den sigma_num sigma_den = Inl e) \<longleftrightarrow>
            \<not> overflow_guards D mu_num mu_den sigma_num sigma_den"
    unfolding c i og by auto
  moreover have "\<forall>S. dn_construct D mu_num mu_den sigma_num sigma_den = Inr S \<longrightarrow>
              kmax = 51 \<and> max 2 (dn_sig S) * (i_b D * kmax) \<le> 2 ^ 63 - 1"
    unfolding c i le_div_iff [OF b(2)] by (auto simp: kmax_def maxll_def split: if_splits)
  ultimately show ?thesis
    using True by simp
qed


text \<open>
  \<open>\<mu> = 1/3\<close>, \<open>\<sigma> = 129/2\<close> with base 2 is accepted, with \<open>_sig = 387\<close>, \<open>_d = 6\<close>,
  \<open>_mu = 2\<close>, \<open>_imu = 0\<close> and \<open>_isig = 65\<close>; \<open>\<sigma> = 2^31 - 1\<close> is refused because
  \<open>_isig kmax\<close> does not fit in an \<open>int\<close>.
\<close>

theorem construct_error_iff_witness:
  "int_min \<le> 1 \<and> 1 \<le> maxint \<and> int_min \<le> 3 \<and> 3 \<le> maxint
   \<and> int_min \<le> 129 \<and> 129 \<le> maxint \<and> int_min \<le> 2 \<and> 2 \<le> maxint
   \<and> int_min \<le> 0 \<and> 0 \<le> maxint \<and> int_min \<le> 2 ^ 31 - 1 \<and> 2 ^ 31 - 1 \<le> maxint
   \<and> 2 \<le> dg_base (cyclic_gen 2 [0, 1]) \<and> dg_base (cyclic_gen 2 [0, 1]) \<le> 2 ^ 24
   \<and> dn_construct (cyclic_gen 2 [0, 1]) 1 3 129 2
       = Inr \<lparr>dn_param = \<lparr>pt_mu_num = 1, pt_mu_den = 3, pt_sigma_num = 129, pt_sigma_den = 2\<rparr>,
              dn_sig = 387, dn_mu = 2, dn_d = 6, dn_imu = 0, dn_isig = 65,
              dn_y = u_init, dn_z = u_init, dn_j = i_rand0\<rparr>
   \<and> overflow_guards (cyclic_gen 2 [0, 1]) 1 3 129 2
   \<and> max 2 387 * (i_b (cyclic_gen 2 [0, 1]) * kmax) \<le> 2 ^ 63 - 1
   \<and> dn_construct (cyclic_gen 2 [0, 1]) 0 1 (2 ^ 31 - 1) 1 = Inl Possible_overflow_a
   \<and> \<not> overflow_guards (cyclic_gen 2 [0, 1]) 0 1 (2 ^ 31 - 1) 1"
proof -
  have r: "int_min \<le> 1" "1 \<le> maxint" "int_min \<le> 3" "3 \<le> maxint"
    "int_min \<le> 129" "129 \<le> maxint" "int_min \<le> 2" "2 \<le> maxint"
    "int_min \<le> 0" "0 \<le> maxint" "int_min \<le> 2 ^ 31 - 1" "2 ^ 31 - 1 \<le> maxint"
    by (simp_all add: int_min_def maxint_def)
  have b: "2 \<le> dg_base (cyclic_gen 2 [0, 1])" "dg_base (cyclic_gen 2 [0, 1]) \<le> 2 ^ 24"
    by (simp_all add: cyclic_gen_def)
  have c1: "dn_construct (cyclic_gen 2 [0, 1]) 1 3 129 2
       = Inr \<lparr>dn_param = \<lparr>pt_mu_num = 1, pt_mu_den = 3, pt_sigma_num = 129, pt_sigma_den = 2\<rparr>,
              dn_sig = 387, dn_mu = 2, dn_d = 6, dn_imu = 0, dn_isig = 65,
              dn_y = u_init, dn_z = u_init, dn_j = i_rand0\<rparr>"
    by code_simp
  have c2: "dn_construct (cyclic_gen 2 [0, 1]) 0 1 (2 ^ 31 - 1) 1 = Inl Possible_overflow_a"
    by code_simp
  from construct_error_iff [OF r(1-8) b] c1 have
    "overflow_guards (cyclic_gen 2 [0, 1]) 1 3 129 2"
    "max 2 387 * (i_b (cyclic_gen 2 [0, 1]) * kmax) \<le> 2 ^ 63 - 1"
    by simp_all
  moreover from construct_error_iff [OF r(9,10,1,2,11,12,1,2) b] c2 have
    "\<not> overflow_guards (cyclic_gen 2 [0, 1]) 0 1 (2 ^ 31 - 1) 1"
    by (simp add: int_min_def)
  ultimately show ?thesis
    using r b c1 c2 by (intro conjI)
qed

section \<open>i_rand: the comparison\<close>




section \<open>discrete_normal_dist: the rejection test of generate\<close>









section \<open>discrete_normal_dist: the fields the constructor sets\<close>






section \<open>The digits of \<open>rand_digit\<close>\<close>

lemma unat_drop_bit_div: "unat (drop_bit n x) = unat x div 2 ^ n"
  by (simp only: unat_drop_bit_eq) (simp add: drop_bit_eq_div)

lemma unat_drop_bit_1: "unat (drop_bit 1 x) = unat x div 2"
  using unat_drop_bit_div [of 1 x] by simp

lemma hbi_nonneg: "0 \<le> highest_bit_idx x"
proof (induction x rule: highest_bit_idx.induct)
  case (1 x)
  then show ?case by (subst highest_bit_idx.simps) simp
qed

lemma hbi_lower: "x \<noteq> 0 \<Longrightarrow> 2 ^ (nat (highest_bit_idx x) - 1) \<le> unat x"
proof (induction x rule: highest_bit_idx.induct)
  case (1 x)
  show ?case
  proof (cases "drop_bit 1 x = 0")
    case True
    then have "highest_bit_idx x = 1"
      using 1(2) by (subst highest_bit_idx.simps, subst highest_bit_idx.simps) simp
    moreover from 1(2) have "unat x \<noteq> 0" by (simp add: unsigned_eq_0_iff)
    then have "1 \<le> unat x" by simp
    ultimately show ?thesis by simp
  next
    case False
    with 1 have ih: "2 ^ (nat (highest_bit_idx (drop_bit 1 x)) - 1) \<le> unat (drop_bit 1 x)" by simp
    have h: "highest_bit_idx x = 1 + highest_bit_idx (drop_bit 1 x)"
      using 1(2) by (subst highest_bit_idx.simps) simp
    from False have "1 \<le> highest_bit_idx (drop_bit 1 x)"
      using hbi_nonneg [of "drop_bit 1 (drop_bit 1 x)"] by (subst highest_bit_idx.simps) simp
    then have e: "nat (highest_bit_idx x) - 1 = Suc (nat (highest_bit_idx (drop_bit 1 x)) - 1)"
      unfolding h by simp
    have "unat (drop_bit 1 x) = unat x div 2" by (rule unat_drop_bit_1)
    with ih have "2 * 2 ^ (nat (highest_bit_idx (drop_bit 1 x)) - 1) \<le> unat x" by simp
    then show ?thesis unfolding e by simp
  qed
qed

lemma hbi_le_32: "highest_bit_idx x \<le> 32"
proof (cases "x = 0")
  case True
  then show ?thesis by (subst highest_bit_idx.simps) simp
next
  case False
  from hbi_lower [OF False] have "2 ^ (nat (highest_bit_idx x) - 1) < (2::nat) ^ 32"
    using unsigned_less [of x, where 'a = nat] by simp
  then have "nat (highest_bit_idx x) - 1 < 32"
    by (rule power_less_imp_less_exp [rotated]) simp
  then show ?thesis by simp
qed

lemma hbi_upper: "unat x < 2 ^ nat (highest_bit_idx x)"
proof (induction x rule: highest_bit_idx.induct)
  case (1 x)
  show ?case
  proof (cases "x = 0")
    case True
    then show ?thesis by simp
  next
    case False
    have h: "highest_bit_idx x = 1 + highest_bit_idx (drop_bit 1 x)"
      using False by (subst highest_bit_idx.simps) simp
    have e: "nat (highest_bit_idx x) = Suc (nat (highest_bit_idx (drop_bit 1 x)))"
      unfolding h using hbi_nonneg [of "drop_bit 1 x"] by simp
    have "unat (drop_bit 1 x) = unat x div 2" by (rule unat_drop_bit_1)
    with 1 [OF False] have "unat x div 2 < 2 ^ nat (highest_bit_idx (drop_bit 1 x))" by simp
    then show ?thesis unfolding e by simp
  qed
qed

lemma bits_bounds: "0 \<le> bits b \<and> bits b \<le> 32"
  by (simp add: bits_def hbi_nonneg hbi_le_32)

lemma basem1_le: "basem1 b \<le> uint_m"
proof -
  have "base b \<le> uint_m" unfolding base_def by (rule word_and_le1)
  moreover have "base b \<noteq> 0 \<Longrightarrow> base b - 1 \<le> base b"
    by (simp add: word_le_nat_alt unat_minus_one)
  ultimately show ?thesis by (auto simp: basem1_def)
qed

lemma unat_mask_uint_t:
  assumes "n \<le> 32"
  shows "unat (mask n :: uint_t) = 2 ^ n - 1"
proof -
  have "unat (mask n :: uint_t) = nat (uint (mask n :: uint_t))"
    by (simp only: unat_eq_nat_uint)
  also have "uint (mask n :: uint_t) = mask n"
    using assms by (simp add: uint_mask_eq min_def)
  also have "nat (mask n) = (mask n :: nat)"
    by (simp add: nat_mask_eq)
  also have "(mask n :: nat) = 2 ^ n - 1"
    by (simp add: mask_eq_exp_minus_1)
  finally show ?thesis .
qed

lemma power_of_two_mask:
  assumes "power_of_two b"
  shows "unat (basem1 b) = 2 ^ nat (bits b) - 1"
proof -
  from bits_bounds [of b] have bb: "bits b \<noteq> uint_w" "bits b < uint_w" "nat (bits b) \<le> 32"
    by (auto simp: uint_w_def)
  have "NOT (push_bit n (NOT 0)) = (mask n :: uint_t)" for n
    by (rule bit_eqI) (auto simp: bit_simps)
  with assms bb have "basem1 b = mask (nat (bits b))"
    by (simp add: power_of_two_def)
  moreover have "unat (mask (nat (bits b)) :: uint_t) = 2 ^ nat (bits b) - 1"
    using bb(3) by (rule unat_mask_uint_t)
  ultimately show ?thesis by simp
qed

lemma drop_bit_below:
  assumes "unat (w :: uint_t) < 2 ^ 32" "n \<le> 32"
  shows "unat (drop_bit (32 - n) w) < 2 ^ n"
proof -
  have "unat (drop_bit (32 - n) w) = unat w div 2 ^ (32 - n)"
    by (rule unat_drop_bit_div)
  moreover have "(2::nat) ^ 32 = 2 ^ n * 2 ^ (32 - n)"
    using assms(2) by (simp flip: power_add)
  ultimately show ?thesis
    using assms(1) by (simp add: less_mult_imp_div_less)
qed


lemma and_m_less: "unat ((w :: uint_t) AND 0xffffffff) < 2 ^ 32"
proof -
  have "unat (w AND 0xffffffff) \<le> unat (0xffffffff :: uint_t)"
    by (rule word_and_le1 [THEN word_le_nat_alt [THEN iffD1]])
  then show ?thesis by simp
qed

lemma radix_basem1: "radix b = unat (basem1 b) + 1"
proof (cases "base b = 0")
  case True
  then show ?thesis by (simp add: radix_def basem1_def uint_m_def)
next
  case False
  then have "unat (base b) \<noteq> 0" by (simp add: unsigned_eq_0_iff)
  with False show ?thesis by (simp add: radix_def basem1_def unat_minus_one)
qed

lemma fast_digit:
  assumes "power_of_two b" "unat (w :: uint_t) < 2 ^ 32"
  shows "unat (drop_bit (nat (32 - bits b)) w) < radix b"
proof -
  from bits_bounds [of b] have n: "nat (bits b) \<le> 32" "nat (32 - bits b) = 32 - nat (bits b)"
    by auto
  have "unat (drop_bit (32 - nat (bits b)) w) < 2 ^ nat (bits b)"
    using assms(2) n(1) by (rule drop_bit_below)
  moreover have "radix b = 2 ^ nat (bits b)"
    using power_of_two_mask [OF assms(1)] by (simp add: radix_basem1)
  ultimately show ?thesis unfolding n(2) by simp
qed

lemma rand_digit_call_range:
  assumes uid: "\<And>e a c. a \<le> c \<Longrightarrow> a \<le> fst (uid e a c) \<and> fst (uid e a c) \<le> c"
    and eng: "\<And>e. fst (g_call gen e) \<le> g_max gen"
    and call: "rand_digit_call b uid gen (c, e) = (d, st)"
  shows "unat d < radix b \<and> fst st = c + 1"
proof -
  consider (a) "power_of_two b \<and> g_min gen = 0 \<and> g_max gen = 0xffffffff"
    | (b) "\<not> (power_of_two b \<and> g_min gen = 0 \<and> g_max gen = 0xffffffff)"
          "power_of_two b \<and> g_min gen = 0 \<and> g_max gen = 0xffffffffffffffff"
    | (c) "\<not> (power_of_two b \<and> g_min gen = 0 \<and> g_max gen = 0xffffffff)"
          "\<not> (power_of_two b \<and> g_min gen = 0 \<and> g_max gen = 0xffffffffffffffff)"
    by blast
  then show ?thesis
  proof cases
    case a
    obtain w e' where w: "g_call gen e = (w, e')" by (cases "g_call gen e")
    from eng [of e] a w have "w \<le> 0xffffffff" by simp
    then have "unat w < 2 ^ 32" by (simp add: word_le_nat_alt)
    with a have "unat (drop_bit (nat (32 - bits b)) w) < radix b"
      by (simp add: fast_digit)
    with call a w show ?thesis by (auto simp: rand_digit_call_def)
  next
    case b
    obtain w e' where w: "g_call gen e = (w, e')" by (cases "g_call gen e")
    have "unat (drop_bit (nat (32 - bits b)) (w AND 0xffffffff)) < radix b"
      by (rule fast_digit [OF _ and_m_less]) (simp add: b(2))
    with call b w show ?thesis by (auto simp: rand_digit_call_def)
  next
    case c
    obtain x e' where x: "uid e min_value (max_value b) = (x, e')"
      by (cases "uid e min_value (max_value b)")
    have "min_value \<le> max_value b" by (simp add: min_value_def)
    from uid [OF this, of e] x have "x \<le> basem1 b" by (simp add: max_value_def)
    then have "unat x < radix b" by (simp add: word_le_nat_alt radix_basem1)
    with call c x show ?thesis by (auto simp: rand_digit_call_def)
  qed
qed

lemma clamp_uid_ok: "a \<le> c \<Longrightarrow> a \<le> fst (clamp_uid e a c) \<and> fst (clamp_uid e a c) \<le> c"
  by (simp add: clamp_uid_def)

lemma lcg_ok: "fst (g_call lcg e) \<le> g_max lcg"
  unfolding lcg_def by (simp add: word_and_le1)


text \<open>
  Claim C7.  Let the call of the \<open>std::uniform_int_distribution\<close> return a value between
  the bounds it is given, and let the engine return values up to its \<open>max()\<close>.  Then
  \<open>n\<close> calls of \<open>rand_digit<b>::operator()\<close> in a row, started with the count \<open>c\<close> (0 after
  the constructor), return \<open>n\<close> digits, each of them in \<open>[0, b)\<close> (where \<open>b\<close> is \<open>2\<^sup>3\<^sup>2\<close> for
  \<open>base = 0\<close>) on each of the three paths of the code (the two paths for a base that is a
  power of two and an engine of 32 or 64 bits, and the path of the distribution), and
  leave the count at \<open>c + n\<close>: each call adds exactly one.  The count is a \<open>long long\<close> in
  the code and an unbounded integer here.
\<close>

theorem rand_digit_range:
  assumes uid: "\<And>e a c. a \<le> c \<Longrightarrow> a \<le> fst (uid e a c) \<and> fst (uid e a c) \<le> c"
    and eng: "\<And>e. fst (g_call gen e) \<le> g_max gen"
    and calls: "rand_digit_calls b uid gen n (c, e) = (ds, st)"
  shows "length ds = n \<and> rand_digit_count st = c + int n \<and> (\<forall>d \<in> set ds. unat d < radix b)"
  using calls
proof (induction n arbitrary: c e ds st)
  case 0
  then show ?case by (auto simp: rand_digit_count_def)
next
  case (Suc n)
  obtain d st' where d: "rand_digit_call b uid gen (c, e) = (d, st')"
    by (cases "rand_digit_call b uid gen (c, e)")
  obtain ds' st'' where r: "rand_digit_calls b uid gen n st' = (ds', st'')"
    by (cases "rand_digit_calls b uid gen n st'")
  from rand_digit_call_range [OF uid eng d] have 1: "unat d < radix b" "fst st' = c + 1"
    by simp_all
  from r have "rand_digit_calls b uid gen n (fst st', snd st') = (ds', st'')" by simp
  from Suc.IH [OF this] 1(2)
  have 2: "length ds' = n" "rand_digit_count st'' = c + 1 + int n" "\<forall>d \<in> set ds'. unat d < radix b"
    by simp_all
  from Suc.prems d r have "ds = d # ds'" "st = st''" by simp_all
  with 1 2 show ?case by simp
qed


theorem rand_digit_range_witness:
  "rand_digit_calls 4 clamp_uid lcg 3 (0, 0xC0000000) = ([3, 3, 0], 3, 901629473144501993) \<and>
   rand_digit_count (3 :: int, 901629473144501993 :: uint_t) = 3 \<and>
   unat (3 :: uint_t) < radix 4 \<and> unat (0 :: uint_t) < radix 4 \<and> radix 4 = 4 \<and>
   power_of_two 4"
proof -
  have r: "rand_digit_calls 4 clamp_uid lcg 3 (0, 0xC0000000)
             = ([3, 3, 0], 3, 901629473144501993)"
    by code_simp
  have "length [3, 3, 0 :: uint_t] = 3 \<and>
        rand_digit_count (3 :: int, 901629473144501993 :: uint_t) = 0 + int 3 \<and>
        (\<forall>d \<in> set [3, 3, 0 :: uint_t]. unat d < radix 4)"
    by (rule rand_digit_range [OF clamp_uid_ok lcg_ok r])
  then have "rand_digit_count (3 :: int, 901629473144501993 :: uint_t) = 3 \<and>
             unat (3 :: uint_t) < radix 4 \<and> unat (0 :: uint_t) < radix 4"
    by simp
  moreover have "radix 4 = 4" by code_simp
  moreover have "power_of_two 4" by code_simp
  ultimately show ?thesis using r by simp
qed

section \<open>The stream operators of \<open>param_type\<close>\<close>

lemma digit_char_digit: "n < 10 \<Longrightarrow> is_digit (digit_char n)"
  by (simp add: is_digit_def digit_char_def)

lemma digit_val_char: "n < 10 \<Longrightarrow> digit_val (digit_char n) = n"
  by (simp add: digit_val_def digit_char_def)

lemma digit_not_special:
  "is_digit c \<Longrightarrow> \<not> is_space c \<and> c \<noteq> CHR ''-'' \<and> c \<noteq> CHR ''+'' \<and> c \<noteq> CHR '' ''"
  by (auto simp: is_digit_def is_space_def)

lemma dec_digits_digits: "\<forall>c \<in> set (dec_digits n). is_digit c"
proof (induction n rule: dec_digits.induct)
  case (1 n)
  then show ?case
    by (subst dec_digits.simps) (auto simp: digit_char_digit)
qed

lemma dec_digits_nonempty: "dec_digits n \<noteq> []"
  by (subst dec_digits.simps) simp

lemma dec_value_snoc: "dec_value (xs @ [c]) = 10 * dec_value xs + digit_val c"
  by (simp add: dec_value_def)

lemma dec_value_digits: "dec_value (dec_digits n) = n"
proof (induction n rule: dec_digits.induct)
  case (1 n)
  show ?case
  proof (cases "n < 10")
    case True
    then show ?thesis
      by (subst dec_digits.simps) (simp add: dec_value_def digit_val_char)
  next
    case False
    with 1 have "dec_value (dec_digits (n div 10)) = n div 10" by simp
    with False show ?thesis
      by (subst dec_digits.simps) (simp add: dec_value_snoc digit_val_char)
  qed
qed

lemma take_digits:
  assumes "r = [] \<or> hd r = CHR '' ''"
  shows "takeWhile is_digit (dec_digits n @ r) = dec_digits n"
    and "dropWhile is_digit (dec_digits n @ r) = r"
proof -
  have "\<not> is_digit (CHR '' '')" by (simp add: is_digit_def)
  with assms have r: "takeWhile is_digit r = []" "dropWhile is_digit r = r"
    by (cases r; auto)+
  show "takeWhile is_digit (dec_digits n @ r) = dec_digits n"
    using dec_digits_digits [of n] r by (simp add: takeWhile_append2)
  show "dropWhile is_digit (dec_digits n @ r) = r"
    using dec_digits_digits [of n] r by (simp add: dropWhile_append2)
qed

lemma digits_head:
  "dec_digits n @ r \<noteq> [] \<and> \<not> is_space (hd (dec_digits n @ r)) \<and>
   hd (dec_digits n @ r) \<noteq> CHR ''-'' \<and> hd (dec_digits n @ r) \<noteq> CHR ''+''"
proof -
  obtain c cs where c: "dec_digits n = c # cs"
    using dec_digits_nonempty [of n] by (cases "dec_digits n") auto
  with dec_digits_digits [of n] have "is_digit c" by simp
  with c show ?thesis using digit_not_special [of c] by simp
qed

lemma dec_get_put:
  assumes "int_min \<le> i" "i \<le> maxint" "r = [] \<or> hd r = CHR '' ''"
  shows "dec_get_int (dec_put_int i @ r) = Some (i, r)"
proof (cases "i < 0")
  case True
  have s: "\<not> is_space (CHR ''-'')" by (simp add: is_space_def)
  have "int (dec_value (dec_digits (nat (- i)))) = - i"
    using True by (simp add: dec_value_digits)
  with True assms s show ?thesis
    by (simp add: dec_get_int_def dec_put_int_def take_digits dec_digits_nonempty)
next
  case False
  let ?s = "dec_digits (nat i) @ r"
  from digits_head [of "nat i" r]
  have h: "?s \<noteq> []" "\<not> is_space (hd ?s)" "hd ?s \<noteq> CHR ''-''" "hd ?s \<noteq> CHR ''+''"
    by simp_all
  then have d: "dropWhile is_space ?s = ?s"
    by (cases ?s) auto
  have "int (dec_value (dec_digits (nat i))) = i"
    using False by (simp add: dec_value_digits)
  then have v: "int (dec_value (dec_digits (nat i))) = i"
      "\<not> int (dec_value (dec_digits (nat i))) < int_min"
      "\<not> maxint < int (dec_value (dec_digits (nat i)))"
    using assms(1,2) by simp_all
  from False have pi: "dec_put_int i = dec_digits (nat i)"
    by (simp add: dec_put_int_def)
  show ?thesis
    unfolding pi dec_get_int_def Let_def d
    using h v by (simp add: take_digits [OF assms(3)] dec_digits_nonempty)
qed

lemma dec_get_skipws: "dec_get_int (CHR '' '' # s) = dec_get_int s"
  by (simp add: dec_get_int_def is_space_def)

lemma param_init_lowest:
  assumes "param_init a b c d = Inr p"
  shows "coprime (pt_mu_num p) (pt_mu_den p) \<and> coprime (pt_sigma_num p) (pt_sigma_den p) \<and>
         0 < pt_mu_den p \<and> 0 < pt_sigma_num p \<and> 0 < pt_sigma_den p \<and>
         \<bar>pt_mu_num p\<bar> \<le> \<bar>a\<bar> \<and> pt_mu_den p \<le> b \<and> pt_sigma_num p \<le> c \<and> pt_sigma_den p \<le> d \<and>
         int_min < a"
proof -
  from assms have g: "0 < c" "0 < d" "0 < b" "int_min < a"
    by (auto simp: param_init_def split: if_splits)
  from param_init_reduced [OF g] assms
  have p: "p = \<lparr>pt_mu_num = a div gcd a b, pt_mu_den = b div gcd a b,
                pt_sigma_num = c div gcd c d, pt_sigma_den = d div gcd c d\<rparr>"
    by simp
  have pos: "0 < gcd a b" "0 < gcd c d" using g by simp_all
  have 1: "coprime (a div gcd a b) (b div gcd a b)" "coprime (c div gcd c d) (d div gcd c d)"
    using g by (simp_all add: div_gcd_coprime)
  have 2: "0 < b div gcd a b" "0 < c div gcd c d" "0 < d div gcd c d"
    using g pos by (simp_all add: dvd_div_pos)
  have 3: "b div gcd a b \<le> b" "c div gcd c d \<le> c" "d div gcd c d \<le> d"
    using g pos by (simp_all add: int_div_le)
  have "\<bar>a div gcd a b\<bar> = \<bar>a\<bar> div gcd a b"
    using pos(1) by (metis abs_div abs_gcd_int gcd_dvd1 abs_of_pos)
  also have "\<dots> \<le> \<bar>a\<bar>"
    using pos(1) by (simp add: int_div_le)
  finally have 4: "\<bar>a div gcd a b\<bar> \<le> \<bar>a\<bar>" .
  show ?thesis unfolding p using 1 2 3 4 g(4) by simp
qed

text \<open>
  Claim C8.  Let the extractor of \<open>int\<close> read back what the inserter of \<open>int\<close> has written
  for an \<open>int\<close>, when the end of the input or a space follows, and let it skip a space
  before the number.  A \<open>param_type\<close> \<open>p\<close> is made by the default constructor or by
  \<open>param_init\<close> (from arguments that are \<open>int\<close>s; \<open>param_init\<close> stores the lowest terms, with
  positive denominators).  Then \<open>operator>>\<close> applied to what \<open>operator<<\<close> has written for
  \<open>p\<close> on an empty stream reads the whole of it, throws nothing, and sets \<open>x\<close> to a value
  equal to \<open>p\<close> under \<open>operator==\<close>.
\<close>

theorem stream_round_trip:
  assumes lib1: "\<And>i r. int_min \<le> i \<Longrightarrow> i \<le> maxint \<Longrightarrow> r = [] \<or> hd r = CHR '' ''
                   \<Longrightarrow> get_int (put_int i @ r) = Some (i, r)"
    and lib2: "\<And>s. get_int (CHR '' '' # s) = get_int s"
    and p: "p = param_default \<or>
            (param_init a b c d = Inr p \<and> a \<le> maxint \<and> b \<le> maxint \<and> c \<le> maxint \<and> d \<le> maxint)"
  shows "\<exists>p'. param_extract get_int (param_insert put_int [] p) x = Inr (p', Some []) \<and>
              param_eq p' p"
proof -
  have inv: "coprime (pt_mu_num p) (pt_mu_den p) \<and> coprime (pt_sigma_num p) (pt_sigma_den p) \<and>
         0 < pt_mu_den p \<and> 0 < pt_sigma_num p \<and> 0 < pt_sigma_den p \<and>
         int_min < pt_mu_num p \<and> pt_mu_num p \<le> maxint \<and> pt_mu_den p \<le> maxint \<and>
         pt_sigma_num p \<le> maxint \<and> pt_sigma_den p \<le> maxint"
    using p
  proof
    assume "p = param_default"
    then show ?thesis by (simp add: param_default_def int_min_def maxint_def)
  next
    assume a: "param_init a b c d = Inr p \<and> a \<le> maxint \<and> b \<le> maxint \<and> c \<le> maxint \<and> d \<le> maxint"
    from param_init_lowest [of a b c d p] a show ?thesis
      by (auto simp: int_min_def maxint_def)
  qed
  let ?a = "pt_mu_num p" and ?b = "pt_mu_den p" and ?c = "pt_sigma_num p" and ?d = "pt_sigma_den p"
  from inv have rng: "int_min \<le> ?a" "?a \<le> maxint" "int_min \<le> ?b" "?b \<le> maxint"
      "int_min \<le> ?c" "?c \<le> maxint" "int_min \<le> ?d" "?d \<le> maxint"
    by (auto simp: int_min_def)
  have g4: "get_int (put_int ?d) = Some (?d, [])"
    using lib1 [OF rng(7,8), of "[]"] by simp
  have g3: "get_int (put_int ?c @ CHR '' '' # put_int ?d) = Some (?c, CHR '' '' # put_int ?d)"
    by (rule lib1 [OF rng(5,6)]) simp
  have g2: "get_int (put_int ?b @ CHR '' '' # put_int ?c @ CHR '' '' # put_int ?d)
            = Some (?b, CHR '' '' # put_int ?c @ CHR '' '' # put_int ?d)"
    by (rule lib1 [OF rng(3,4)]) simp
  have g1: "get_int (put_int ?a @ CHR '' '' # put_int ?b @ CHR '' '' # put_int ?c @ CHR '' '' # put_int ?d)
            = Some (?a, CHR '' '' # put_int ?b @ CHR '' '' # put_int ?c @ CHR '' '' # put_int ?d)"
    by (rule lib1 [OF rng(1,2)]) simp
  have "gcd ?a ?b = 1" "gcd ?c ?d = 1"
    using inv by (simp_all add: coprime_iff_gcd_eq_1)
  with inv have "param_init ?a ?b ?c ?d = Inr p"
    by (simp add: param_init_reduced)
  then have "param_extract get_int (param_insert put_int [] p) x = Inr (p, Some [])"
    by (simp add: param_extract_def param_insert_def g1 g2 g3 g4 lib2)
  then show ?thesis by (simp add: param_eq_def)
qed

theorem stream_round_trip_witness:
  "param_init (- 6) 4 14 8
     = Inr \<lparr>pt_mu_num = - 3, pt_mu_den = 2, pt_sigma_num = 7, pt_sigma_den = 4\<rparr> \<and>
   param_insert dec_put_int []
       \<lparr>pt_mu_num = - 3, pt_mu_den = 2, pt_sigma_num = 7, pt_sigma_den = 4\<rparr> = ''-3 2 7 4'' \<and>
   param_extract dec_get_int ''-3 2 7 4'' param_default
     = Inr (\<lparr>pt_mu_num = - 3, pt_mu_den = 2, pt_sigma_num = 7, pt_sigma_den = 4\<rparr>, Some [])"
proof -
  let ?p = "\<lparr>pt_mu_num = - 3, pt_mu_den = 2, pt_sigma_num = 7, pt_sigma_den = 4\<rparr>"
  have i: "param_init (- 6) 4 14 8 = Inr ?p"
    by code_simp
  have w: "param_insert dec_put_int [] ?p = ''-3 2 7 4''"
    by code_simp
  have "param_init (- 6) 4 14 8 = Inr ?p \<and> - 6 \<le> maxint \<and> 4 \<le> maxint \<and> 14 \<le> maxint \<and> 8 \<le> maxint"
    using i by (simp add: maxint_def)
  then have "?p = param_default \<or> (param_init (- 6) 4 14 8 = Inr ?p \<and> - 6 \<le> maxint \<and> 4 \<le> maxint \<and> 14 \<le> maxint \<and> 8 \<le> maxint)"
    by (rule disjI2)
  from stream_round_trip [where put_int = dec_put_int and get_int = dec_get_int
      and x = param_default, OF dec_get_put dec_get_skipws this]
  obtain p' where "param_extract dec_get_int (param_insert dec_put_int [] ?p) param_default
                     = Inr (p', Some [])" and "param_eq p' ?p"
    by blast
  then have "param_extract dec_get_int ''-3 2 7 4'' param_default = Inr (?p, Some [])"
    unfolding w by (cases p') (simp add: param_eq_def)
  with i w show ?thesis by (intro conjI)
qed

end
